theory Spec2Isabelle
  imports Complex_Main "HOL-Library.Log_Nat"
begin

section \<open>Numbers and points\<close>

text \<open>
  The source computes on JavaScript numbers: binary64 values, every operation rounded to
  the nearest one, ties to even. A finite number is modelled as the real it denotes; what
  an operation returns is a \<open>jsnum\<close>: a finite real, an infinity or NaN. The fields of
  events, rectangles and the canvas, and the threshold, hold finite binary64 values. The
  sign of zero is left out: a zero divisor is taken as positive zero.
\<close>

datatype jsnum = Fin real | PInf | NInf | NaN

text \<open>\<open>2\<close> to the power \<open>e\<close>, for an integer \<open>e\<close>.\<close>

definition pow2 :: "int \<Rightarrow> real" where
  "pow2 e = (if 0 \<le> e then 2 ^ nat e else 1 / 2 ^ nat (- e))"

text \<open>The binary exponent of a positive \<open>x\<close>: the \<open>e\<close> with \<open>2^e <= x < 2^(e+1)\<close>.\<close>

definition ilog2 :: "real \<Rightarrow> int" where
  "ilog2 x = (if 1 \<le> x then bitlen \<lfloor>x\<rfloor> - 1 else - bitlen (\<lceil>1 / x\<rceil> - 1))"

text \<open>The nearest integer, the even one of two that are equally near.\<close>

definition round_half_even :: "real \<Rightarrow> int" where
  "round_half_even r =
     (let f = \<lfloor>r\<rfloor>; d = r - of_int f
      in if d < 1 / 2 then f else if 1 / 2 < d then f + 1 else if even f then f else f + 1)"

text \<open>
  Rounding an exact result to binary64: 53 significant bits, exponents from -1022 (below
  that the spacing stays \<open>2^-1074\<close>: subnormal numbers), and an infinity when the rounded
  value reaches \<open>2^1024\<close>.
\<close>

definition round64 :: "real \<Rightarrow> jsnum" where
  "round64 x =
     (if x = 0 then Fin 0
      else
        let e = max (ilog2 \<bar>x\<bar>) (- 1022);
            u = pow2 (e - 52);
            r = of_int (round_half_even (x / u)) * u
        in if pow2 1024 \<le> \<bar>r\<bar> then (if 0 < x then PInf else NInf) else Fin r)"

text \<open>A real that is a binary64 value: rounding leaves it as it is.\<close>

definition binary64 :: "real \<Rightarrow> bool" where
  "binary64 x = (round64 x = Fin x)"

text \<open>\<open>a - b\<close> on finite operands.\<close>

definition js_sub :: "real \<Rightarrow> real \<Rightarrow> jsnum" where
  "js_sub a b = round64 (a - b)"

text \<open>\<open>a / b\<close> on finite operands.\<close>

definition js_div :: "real \<Rightarrow> real \<Rightarrow> jsnum" where
  "js_div a b =
     (if b = 0 then (if 0 < a then PInf else if a < 0 then NInf else NaN)
      else round64 (a / b))"

text \<open>An infinity of the sign of \<open>a\<close> (NaN for zero): the product of \<open>a\<close> and \<open>+Infinity\<close>.\<close>

definition js_signed_inf :: "real \<Rightarrow> jsnum" where
  "js_signed_inf a = (if 0 < a then PInf else if a < 0 then NInf else NaN)"

fun js_mul :: "jsnum \<Rightarrow> jsnum \<Rightarrow> jsnum" where
  "js_mul NaN _ = NaN"
| "js_mul _ NaN = NaN"
| "js_mul (Fin a) (Fin b) = round64 (a * b)"
| "js_mul (Fin a) PInf = js_signed_inf a"
| "js_mul (Fin a) NInf = js_signed_inf (- a)"
| "js_mul PInf (Fin b) = js_signed_inf b"
| "js_mul NInf (Fin b) = js_signed_inf (- b)"
| "js_mul PInf PInf = PInf"
| "js_mul PInf NInf = NInf"
| "js_mul NInf PInf = NInf"
| "js_mul NInf NInf = PInf"

text \<open>\<open>Math.abs\<close>.\<close>

fun js_abs :: "jsnum \<Rightarrow> jsnum" where
  "js_abs (Fin a) = Fin \<bar>a\<bar>"
| "js_abs PInf = PInf"
| "js_abs NInf = PInf"
| "js_abs NaN = NaN"

text \<open>\<open>a <= b\<close>: false as soon as one side is NaN.\<close>

fun js_le :: "jsnum \<Rightarrow> jsnum \<Rightarrow> bool" where
  "js_le NaN _ = False"
| "js_le _ NaN = False"
| "js_le (Fin a) (Fin b) = (a \<le> b)"
| "js_le NInf _ = True"
| "js_le _ PInf = True"
| "js_le PInf _ = False"
| "js_le (Fin a) NInf = False"

datatype point = Point (px: real) (py: real)

datatype jspoint = JSPoint (jx: jsnum) (jy: jsnum)

section \<open>Events, the viewport as the manager sees it, and the manager's state\<close>

record event =
  pointerType :: string
  pointerId :: int
  clientX :: real
  clientY :: real

record wheel_event =
  wheel_clientX :: real
  wheel_clientY :: real

text \<open>What \<open>getBoundingClientRect\<close> returns, as far as the mapper reads it.\<close>

record rect =
  rect_left :: real
  rect_top :: real
  rect_width :: real
  rect_height :: real

text \<open>
  \<open>options.canvasElement\<close>: whether it has a \<open>parentElement\<close>, its backing size and its
  bounding rectangle.
\<close>

record canvas =
  parentElement :: bool
  canvas_width :: real
  canvas_height :: real
  boundingClientRect :: rect

text \<open>
  The owning viewport, read afresh at every call. \<open>decelerate\<close> and \<open>bounce\<close> are what
  \<open>plugins.get(name, true)\<close> gives: \<open>None\<close> when there is no such plugin, otherwise what
  its \<open>isActive()\<close> answers. The plugin chain, \<open>toWorld\<close> and \<open>toLocal\<close> live outside this
  file and are parameters.
\<close>

record viewport =
  vp_pause :: bool
  worldVisible :: bool
  threshold :: real
  decelerate :: "bool option"
  bounce :: "bool option"
  plugins_down :: "event \<Rightarrow> bool"
  plugins_move :: "event \<Rightarrow> bool"
  plugins_up :: "event \<Rightarrow> bool"
  plugins_wheel :: "wheel_event \<Rightarrow> bool"
  opt_stopPropagation :: bool
  opt_passiveWheel :: bool
  canvasElement :: canvas
  toWorld :: "point \<Rightarrow> jspoint"
  toLocal :: "jspoint \<Rightarrow> jspoint"
  vp_left :: jsnum
  vp_right :: jsnum
  vp_top :: jsnum
  vp_bottom :: jsnum

text \<open>\<open>IViewportTouch\<close>.\<close>

record viewport_touch =
  touch_id :: int
  touch_last :: "point option"

text \<open>
  The fields of \<open>InputManager\<close>. \<open>clickedAvailable\<close> and \<open>last\<close> are optional in the source:
  \<open>None\<close> is \<open>undefined\<close> (or \<open>null\<close> for \<open>last\<close>), both falsy.
\<close>

record input_manager =
  clickedAvailable :: "bool option"
  isMouseDown :: bool
  last_point :: "point option"
  touches :: "viewport_touch list"

text \<open>What a handler does to the outside, in the order it does it.\<close>

datatype effect =
    PluginsDown event
  | PluginsMove event
  | PluginsUp event
  | PluginsWheel wheel_event
  | EmitClicked event point jspoint
  | StopPropagation
  | PreventDefault

text \<open>The state the constructor leaves.\<close>

definition new_manager :: input_manager where
  "new_manager =
     \<lparr>clickedAvailable = None, isMouseDown = False, last_point = None, touches = []\<rparr>"

section \<open>The registry\<close>

fun get_in :: "viewport_touch list \<Rightarrow> int \<Rightarrow> viewport_touch option" where
  "get_in [] i = None"
| "get_in (t # ts) i = (if touch_id t = i then Some t else get_in ts i)"

definition get :: "input_manager \<Rightarrow> int \<Rightarrow> viewport_touch option" where
  "get s i = get_in (touches s) i"

fun remove_in :: "viewport_touch list \<Rightarrow> int \<Rightarrow> viewport_touch list" where
  "remove_in [] i = []"
| "remove_in (t # ts) i = (if touch_id t = i then ts else t # remove_in ts i)"

definition remove_touch :: "input_manager \<Rightarrow> int \<Rightarrow> input_manager" where
  "remove_touch s i = s\<lparr>touches := remove_in (touches s) i\<rparr>"

definition count :: "input_manager \<Rightarrow> int" where
  "count s = (if isMouseDown s then 1 else 0) + int (length (touches s))"

definition clear :: "input_manager \<Rightarrow> input_manager" where
  "clear s = s\<lparr>isMouseDown := False, touches := [], last_point := None\<rparr>"

definition pause :: "input_manager \<Rightarrow> input_manager" where
  "pause s = s\<lparr>touches := [], isMouseDown := False\<rparr>"

section \<open>The click detector and the handlers\<close>

text \<open>\<open>Math.abs(change) >= this.viewport.threshold\<close>.\<close>

definition checkThreshold :: "viewport \<Rightarrow> jsnum \<Rightarrow> bool" where
  "checkThreshold vp change =
     (if js_le (Fin (threshold vp)) (js_abs change) then True else False)"

text \<open>\<open>!plugin || !plugin.isActive()\<close>.\<close>

definition absent_or_inactive :: "bool option \<Rightarrow> bool" where
  "absent_or_inactive p = (case p of None \<Rightarrow> True | Some active \<Rightarrow> \<not> active)"

definition stop_effects :: "viewport \<Rightarrow> bool \<Rightarrow> effect list" where
  "stop_effects vp stop = (if stop \<and> opt_stopPropagation vp then [StopPropagation] else [])"

definition down :: "viewport \<Rightarrow> event \<Rightarrow> input_manager \<Rightarrow> input_manager \<times> effect list" where
  "down vp e s =
     (if vp_pause vp \<or> \<not> worldVisible vp then (s, [])
      else
        let s1 = (if pointerType e = ''mouse'' then s\<lparr>isMouseDown := True\<rparr>
                  else if get s (pointerId e) = None
                  then s\<lparr>touches := touches s @ [\<lparr>touch_id = pointerId e, touch_last = None\<rparr>]\<rparr>
                  else s);
            s2 = (if count s1 = 1
                  then
                    (let s1' = s1\<lparr>last_point := Some (Point (clientX e) (clientY e))\<rparr>
                     in if absent_or_inactive (decelerate vp) \<and> absent_or_inactive (bounce vp)
                        then s1'\<lparr>clickedAvailable := Some True\<rparr>
                        else s1'\<lparr>clickedAvailable := Some False\<rparr>)
                  else s1\<lparr>clickedAvailable := Some False\<rparr>);
            stop = plugins_down vp e
        in (s2, PluginsDown e # stop_effects vp stop))"

definition move :: "viewport \<Rightarrow> event \<Rightarrow> input_manager \<Rightarrow> input_manager \<times> effect list" where
  "move vp e s =
     (if vp_pause vp \<or> \<not> worldVisible vp then (s, [])
      else
        let stop = plugins_move vp e;
            s1 = (if clickedAvailable s = Some True \<and> last_point s \<noteq> None
                  then
                    (let distX = js_sub (clientX e) (px (the (last_point s)));
                         distY = js_sub (clientY e) (py (the (last_point s)))
                     in if checkThreshold vp distX \<or> checkThreshold vp distY
                        then s\<lparr>clickedAvailable := Some False\<rparr> else s)
                  else s)
        in (s1, PluginsMove e # stop_effects vp stop))"

definition up :: "viewport \<Rightarrow> event \<Rightarrow> input_manager \<Rightarrow> input_manager \<times> effect list" where
  "up vp e s =
     (if vp_pause vp \<or> \<not> worldVisible vp then (s, [])
      else
        let s1 = (if pointerType e = ''mouse'' then s\<lparr>isMouseDown := False\<rparr> else s);
            s2 = (if pointerType e \<noteq> ''mouse'' then remove_touch s1 (pointerId e) else s1);
            stop = plugins_up vp e
        in if clickedAvailable s2 = Some True \<and> count s2 = 0 \<and> last_point s2 \<noteq> None
           then (s2\<lparr>clickedAvailable := Some False\<rparr>,
                 PluginsUp e
                 # EmitClicked e (the (last_point s2)) (toWorld vp (the (last_point s2)))
                 # stop_effects vp stop)
           else (s2, PluginsUp e # stop_effects vp stop))"

section \<open>The coordinate mapper and the wheel gate\<close>

definition mapPositionToPoint :: "canvas \<Rightarrow> real \<Rightarrow> real \<Rightarrow> jspoint" where
  "mapPositionToPoint cv x y =
     (let r = (if \<not> parentElement cv
               then \<lparr>rect_left = 0, rect_top = 0,
                     rect_width = canvas_width cv, rect_height = canvas_height cv\<rparr>
               else boundingClientRect cv);
          resolutionMultiplier = Fin 1
      in JSPoint
           (js_mul (js_mul (js_sub x (rect_left r)) (js_div (canvas_width cv) (rect_width r)))
              resolutionMultiplier)
           (js_mul (js_mul (js_sub y (rect_top r)) (js_div (canvas_height cv) (rect_height r)))
              resolutionMultiplier))"

definition getPointerPosition :: "viewport \<Rightarrow> wheel_event \<Rightarrow> jspoint" where
  "getPointerPosition vp e =
     mapPositionToPoint (canvasElement vp) (wheel_clientX e) (wheel_clientY e)"

definition handleWheel :: "viewport \<Rightarrow> wheel_event \<Rightarrow> effect list" where
  "handleWheel vp e =
     (if vp_pause vp \<or> \<not> worldVisible vp then []
      else
        let p = toLocal vp (getPointerPosition vp e)
        in if js_le (vp_left vp) (jx p) \<and> js_le (jx p) (vp_right vp)
              \<and> js_le (vp_top vp) (jy p) \<and> js_le (jy p) (vp_bottom vp)
           then
             (let stop = plugins_wheel vp e
              in PluginsWheel e # (if stop \<and> \<not> opt_passiveWheel vp then [PreventDefault] else []))
           else [])"

section \<open>Sequences of calls\<close>

datatype action =
    Down viewport event
  | Move viewport event
  | Up viewport event
  | Wheel viewport wheel_event
  | Pause
  | Clear

fun step :: "action \<Rightarrow> input_manager \<Rightarrow> input_manager \<times> effect list" where
  "step (Down vp e) s = down vp e s"
| "step (Move vp e) s = move vp e s"
| "step (Up vp e) s = up vp e s"
| "step (Wheel vp e) s = (s, handleWheel vp e)"
| "step Pause s = (pause s, [])"
| "step Clear s = (clear s, [])"

fun run :: "input_manager \<Rightarrow> action list \<Rightarrow> input_manager \<times> effect list" where
  "run s [] = (s, [])"
| "run s (a # as) =
     (case step a s of (s1, out1) \<Rightarrow> (case run s1 as of (s2, out2) \<Rightarrow> (s2, out1 @ out2)))"

fun is_clicked :: "effect \<Rightarrow> bool" where
  "is_clicked (EmitClicked _ _ _) = True"
| "is_clicked _ = False"

definition clicked_signals :: "effect list \<Rightarrow> effect list" where
  "clicked_signals out = filter is_clicked out"

section \<open>Notions the properties are stated with\<close>

text \<open>The guard every handler starts with: the event is dropped.\<close>

definition ignored :: "viewport \<Rightarrow> bool" where
  "ignored vp = (if vp_pause vp then True else if worldVisible vp then False else True)"

definition ids_of :: "input_manager \<Rightarrow> int set" where
  "ids_of s = touch_id ` set (touches s)"

definition unique_ids :: "input_manager \<Rightarrow> bool" where
  "unique_ids s = distinct (map touch_id (touches s))"

text \<open>
  The registry as the specification describes it: the set of registered touch ids and the
  mouse flag. A touch down registers its id, a touch up unregisters it, a mouse down or up
  sets or clears the flag, \<open>pause\<close> and \<open>clear\<close> reset both, a dropped event changes nothing.
\<close>

fun spec_step :: "action \<Rightarrow> int set \<times> bool \<Rightarrow> int set \<times> bool" where
  "spec_step (Down vp e) (ids, m) =
     (if ignored vp then (ids, m)
      else if pointerType e = ''mouse'' then (ids, True) else (insert (pointerId e) ids, m))"
| "spec_step (Up vp e) (ids, m) =
     (if ignored vp then (ids, m)
      else if pointerType e = ''mouse'' then (ids, False) else (ids - {pointerId e}, m))"
| "spec_step (Move vp e) r = r"
| "spec_step (Wheel vp e) r = r"
| "spec_step Pause r = ({}, False)"
| "spec_step Clear r = ({}, False)"

fun spec_run :: "int set \<times> bool \<Rightarrow> action list \<Rightarrow> int set \<times> bool" where
  "spec_run r [] = r"
| "spec_run r (a # as) = spec_run (spec_step a r) as"

text \<open>An action that takes the touch id \<open>i\<close> out of the registry.\<close>

fun unregisters :: "int \<Rightarrow> action \<Rightarrow> bool" where
  "unregisters i (Up vp e) =
     (if ignored vp then False else if pointerType e = ''mouse'' then False else pointerId e = i)"
| "unregisters i Pause = True"
| "unregisters i Clear = True"
| "unregisters i _ = False"

subsection \<open>The click detector, the mapper and the wheel gate in the specification's words\<close>

text \<open>A plugin indicator that is there and reports active.\<close>

definition present_and_active :: "bool option \<Rightarrow> bool" where
  "present_and_active p = (p = Some True)"

text \<open>\<open>left <= x <= right\<close> and \<open>top <= y <= bottom\<close>, both ends included.\<close>

definition within_visible :: "viewport \<Rightarrow> jspoint \<Rightarrow> bool" where
  "within_visible vp p =
     (js_le (vp_left vp) (jx p) \<and> js_le (jx p) (vp_right vp)
      \<and> js_le (vp_top vp) (jy p) \<and> js_le (jy p) (vp_bottom vp))"

text \<open>
  The rectangle the specification maps with: the bounding rectangle of a canvas that has a
  layout parent, and \<open>{left: 0, top: 0, width: backingWidth, height: backingHeight}\<close> for a
  detached one.
\<close>

definition spec_rect :: "canvas \<Rightarrow> rect" where
  "spec_rect cv =
     (if parentElement cv then boundingClientRect cv
      else \<lparr>rect_left = 0, rect_top = 0,
            rect_width = canvas_width cv, rect_height = canvas_height cv\<rparr>)"

text \<open>
  \<open>(screen - origin) * (backing / shown)\<close> as the real number it is.
\<close>

definition spec_scale :: "real \<Rightarrow> real \<Rightarrow> real \<Rightarrow> real \<Rightarrow> real" where
  "spec_scale screen origin backing shown = (screen - origin) * (backing / shown)"

text \<open>
  The displacement from \<open>b\<close> to \<open>a\<close>, rounded to binary64 as the subtraction leaves it,
  reaches the threshold in absolute value.
\<close>

definition reaches :: "real \<Rightarrow> real \<Rightarrow> real \<Rightarrow> bool" where
  "reaches thr a b = js_le (Fin thr) (js_abs (round64 (a - b)))"

text \<open>
  What may come between the down and the up of a tap pressed at \<open>p\<close>: a move that is dropped,
  or whose rounded displacement from \<open>p\<close> reaches the threshold on neither axis, or a wheel
  event.
\<close>

fun calm :: "point \<Rightarrow> action \<Rightarrow> bool" where
  "calm p (Move vp e) =
     (if ignored vp then True
      else if reaches (threshold vp) (clientX e) (px p) then False
      else if reaches (threshold vp) (clientY e) (py p) then False else True)"
| "calm p (Wheel vp e) = True"
| "calm p _ = False"

text \<open>A down event that is processed while nothing is pressed: it brings the count from 0 to 1.\<close>

fun is_rearming :: "input_manager \<Rightarrow> action \<Rightarrow> bool" where
  "is_rearming s (Down vp e) = (if ignored vp then False else count s = 0)"
| "is_rearming s _ = False"

text \<open>How many such downs a sequence of calls holds, started in \<open>s\<close>.\<close>

fun rearming_downs :: "input_manager \<Rightarrow> action list \<Rightarrow> nat" where
  "rearming_downs s [] = 0"
| "rearming_downs s (a # as) =
     (if is_rearming s a then 1 else 0) + rearming_downs (fst (step a s)) as"

fun processed_down :: "action \<Rightarrow> bool" where
  "processed_down (Down vp e) = (if ignored vp then False else True)"
| "processed_down _ = False"

text \<open>
  The clicks a state can still give before the next down from an empty registry: none when
  nothing is pressed and the detector is not armed, one otherwise.
\<close>

definition click_budget :: "input_manager \<Rightarrow> nat" where
  "click_budget s = (if clickedAvailable s = Some True then 1 else if count s = 0 then 0 else 1)"

text \<open>The registry part of \<open>up\<close>: the mouse flag cleared, or the touch removed.\<close>

definition released :: "event \<Rightarrow> input_manager \<Rightarrow> input_manager" where
  "released e s =
     (if pointerType e = ''mouse'' then s\<lparr>isMouseDown := False\<rparr>
      else s\<lparr>touches := remove_in (touches s) (pointerId e)\<rparr>)"

subsection \<open>A concrete viewport and concrete events\<close>

definition demo_canvas :: canvas where
  "demo_canvas =
     \<lparr>parentElement = True, canvas_width = 800, canvas_height = 600,
      boundingClientRect = \<lparr>rect_left = 10, rect_top = 10, rect_width = 400, rect_height = 300\<rparr>\<rparr>"

definition demo_viewport :: viewport where
  "demo_viewport =
     \<lparr>vp_pause = False, worldVisible = True, threshold = 5,
      decelerate = None, bounce = Some False,
      plugins_down = (\<lambda>e. False), plugins_move = (\<lambda>e. False),
      plugins_up = (\<lambda>e. True), plugins_wheel = (\<lambda>e. True),
      opt_stopPropagation = True, opt_passiveWheel = False,
      canvasElement = demo_canvas,
      toWorld = (\<lambda>p. JSPoint (Fin (px p)) (Fin (py p))), toLocal = (\<lambda>p. p),
      vp_left = Fin 0, vp_right = Fin 800, vp_top = Fin 0, vp_bottom = Fin 600\<rparr>"

definition touch_at :: "int \<Rightarrow> real \<Rightarrow> real \<Rightarrow> event" where
  "touch_at i x y = \<lparr>pointerType = ''touch'', pointerId = i, clientX = x, clientY = y\<rparr>"

definition mouse_at :: "real \<Rightarrow> real \<Rightarrow> event" where
  "mouse_at x y = \<lparr>pointerType = ''mouse'', pointerId = 1, clientX = x, clientY = y\<rparr>"

text \<open>The manager after a touch with id 1 went down at (3, 4) on the concrete viewport.\<close>

definition demo_armed :: input_manager where
  "demo_armed =
     \<lparr>clickedAvailable = Some True, isMouseDown = False, last_point = Some (Point 3 4),
      touches = [\<lparr>touch_id = 1, touch_last = None\<rparr>]\<rparr>"

text \<open>
  The binary64 values nearest to 0.1 and to 5.1, and the state a touch with id 1 leaves that
  went down at the first of them.
\<close>

definition near_0_1 :: real where
  "near_0_1 = 3602879701896397 / 36028797018963968"

definition near_5_1 :: real where
  "near_5_1 = 2871044762448691 / 562949953421312"

definition demo_armed_fraction :: input_manager where
  "demo_armed_fraction =
     \<lparr>clickedAvailable = Some True, isMouseDown = False, last_point = Some (Point near_0_1 4),
      touches = [\<lparr>touch_id = 1, touch_last = None\<rparr>]\<rparr>"

text \<open>A canvas of backing width 800 shown 302 wide at offset (10, 10).\<close>

definition demo_canvas_302 :: canvas where
  "demo_canvas_302 =
     \<lparr>parentElement = True, canvas_width = 800, canvas_height = 600,
      boundingClientRect = \<lparr>rect_left = 10, rect_top = 10, rect_width = 302, rect_height = 300\<rparr>\<rparr>"

text \<open>A detached canvas of backing size 800 by 600.\<close>

definition demo_canvas_detached :: canvas where
  "demo_canvas_detached =
     \<lparr>parentElement = False, canvas_width = 800, canvas_height = 600,
      boundingClientRect = \<lparr>rect_left = 10, rect_top = 10, rect_width = 400, rect_height = 300\<rparr>\<rparr>"

section \<open>Rounding to binary64\<close>

lemma pow2_powr: "pow2 e = 2 powr (real_of_int e)"
proof (cases "0 \<le> e")
  case True
  then show ?thesis by (simp add: pow2_def powr_realpow [symmetric])
next
  case False
  define n where "n = nat (- e)"
  from False have e: "real_of_int e = - real n" by (simp add: n_def)
  have "2 powr (real_of_int e) = 1 / 2 ^ n"
    unfolding e by (simp add: powr_minus_divide powr_realpow)
  moreover from False have "pow2 e = 1 / 2 ^ n" by (simp add: pow2_def n_def)
  ultimately show ?thesis by simp
qed

lemma pow2_pos: "0 < pow2 e"
  by (simp add: pow2_powr)

lemma pow2_add: "pow2 (a + b) = pow2 a * pow2 b"
  by (simp add: pow2_powr powr_add)

lemma pow2_le_iff: "pow2 a \<le> pow2 b \<longleftrightarrow> a \<le> b"
  by (simp add: pow2_powr)

lemma pow2_less_iff: "pow2 a < pow2 b \<longleftrightarrow> a < b"
  by (simp add: pow2_powr)

lemma pow2_nat: "0 \<le> e \<Longrightarrow> pow2 e = of_int (2 ^ nat e)"
  by (simp add: pow2_def)

lemma of_int_two_power: "real_of_int (2 ^ n) = 2 ^ n"
  by simp

lemma ilog2_bounds:
  assumes "0 < x"
  shows "pow2 (ilog2 x) \<le> x \<and> x < pow2 (ilog2 x + 1)"
proof (cases "1 \<le> x")
  case True
  let ?n = "\<lfloor>x\<rfloor>"
  let ?k = "bitlen ?n"
  from True have n: "0 < ?n" by simp
  from bitlen_bounds [OF n]
  have lo: "2 ^ nat (?k - 1) \<le> ?n" and hi: "?n < 2 ^ nat ?k" by simp_all
  from n have b: "1 \<le> ?k" by (simp add: bitlen_alt_def)
  from lo have "real_of_int (2 ^ nat (?k - 1)) \<le> real_of_int ?n" by (simp only: of_int_le_iff)
  then have "2 ^ nat (?k - 1) \<le> real_of_int ?n" by (simp only: of_int_two_power)
  moreover have "real_of_int ?n \<le> x" by (rule of_int_floor_le)
  ultimately have "2 ^ nat (?k - 1) \<le> x" by linarith
  then have 1: "pow2 (?k - 1) \<le> x" using b by (simp add: pow2_def)
  from hi have "?n + 1 \<le> 2 ^ nat ?k" by simp
  then have "real_of_int (?n + 1) \<le> real_of_int (2 ^ nat ?k)" by (simp only: of_int_le_iff)
  then have "real_of_int ?n + 1 \<le> 2 ^ nat ?k" by (simp only: of_int_two_power of_int_add of_int_1)
  moreover have "x < real_of_int ?n + 1" by linarith
  ultimately have "x < 2 ^ nat ?k" by linarith
  then have 2: "x < pow2 ?k" using b by (simp add: pow2_def)
  from 1 2 True show ?thesis by (simp add: ilog2_def)
next
  case False
  let ?m = "\<lceil>1 / x\<rceil>"
  let ?k = "bitlen (?m - 1)"
  from False assms have x1: "1 < 1 / x" by simp
  then have m: "0 < ?m - 1" by linarith
  from bitlen_bounds [OF m]
  have lo: "2 ^ nat (?k - 1) \<le> ?m - 1" and hi: "?m - 1 < 2 ^ nat ?k"
    by simp_all
  from m have b: "1 \<le> ?k" by (simp add: bitlen_alt_def)
  from hi have "?m \<le> 2 ^ nat ?k" by simp
  then have "real_of_int ?m \<le> real_of_int (2 ^ nat ?k)" by (simp only: of_int_le_iff)
  then have "real_of_int ?m \<le> 2 ^ nat ?k" by (simp only: of_int_two_power)
  moreover have "1 / x \<le> real_of_int ?m" by (rule le_of_int_ceiling)
  ultimately have "1 / x \<le> 2 ^ nat ?k" by linarith
  then have "1 / 2 ^ nat ?k \<le> x" using assms by (simp add: field_simps)
  then have 1: "pow2 (- ?k) \<le> x" using b by (simp add: pow2_def)
  from lo have "real_of_int (2 ^ nat (?k - 1)) \<le> real_of_int (?m - 1)" by (simp only: of_int_le_iff)
  then have "2 ^ nat (?k - 1) \<le> real_of_int ?m - 1"
    by (simp only: of_int_two_power of_int_diff of_int_1)
  moreover have "real_of_int ?m - 1 < 1 / x" by linarith
  ultimately have "2 ^ nat (?k - 1) < 1 / x" by linarith
  then have "x < 1 / 2 ^ nat (?k - 1)" using assms by (simp add: field_simps)
  moreover have "pow2 (- ?k + 1) = 1 / 2 ^ nat (?k - 1)"
  proof (cases "?k = 1")
    case True
    then show ?thesis by (simp add: pow2_def)
  next
    case False
    with b have "- ?k + 1 < 0" by simp
    then show ?thesis by (simp add: pow2_def)
  qed
  ultimately have 2: "x < pow2 (- ?k + 1)" by simp
  from 1 2 False show ?thesis by (simp add: ilog2_def)
qed

lemma ilog2_eqI:
  assumes "0 < x" and "pow2 e \<le> x" and "x < pow2 (e + 1)"
  shows "ilog2 x = e"
proof -
  from ilog2_bounds [OF assms(1)]
  have lo: "pow2 (ilog2 x) \<le> x" and hi: "x < pow2 (ilog2 x + 1)" by simp_all
  from lo assms(3) have "pow2 (ilog2 x) < pow2 (e + 1)" by linarith
  then have "ilog2 x < e + 1" by (simp only: pow2_less_iff)
  moreover from assms(2) hi have "pow2 e < pow2 (ilog2 x + 1)" by linarith
  then have "e < ilog2 x + 1" by (simp only: pow2_less_iff)
  ultimately show ?thesis by simp
qed

lemma round_half_even_of_int: "round_half_even (of_int m) = m"
  by (simp add: round_half_even_def)

lemma round_half_even_bounds:
  "\<lfloor>r\<rfloor> \<le> round_half_even r \<and> round_half_even r \<le> \<lfloor>r\<rfloor> + 1"
  by (simp add: round_half_even_def Let_def)

lemma round64_scaled_int:
  assumes "m \<noteq> 0" and "\<bar>m\<bar> < 2 ^ 53" and "- 1074 \<le> k"
    and "\<bar>of_int m * pow2 k\<bar> < pow2 1024"
  shows "round64 (of_int m * pow2 k) = Fin (of_int m * pow2 k)"
proof -
  define x where "x = real_of_int m * pow2 k"
  define e where "e = max (ilog2 \<bar>x\<bar>) (- 1022)"
  define u where "u = pow2 (e - 52)"
  have up: "0 < u" by (simp add: u_def pow2_pos)
  from assms(1) have x0: "x \<noteq> 0" using pow2_pos [of k] by (simp add: x_def)
  then have xp: "0 < \<bar>x\<bar>" by simp
  from assms(2) have "real_of_int \<bar>m\<bar> < real_of_int (2 ^ 53)" by (simp only: of_int_less_iff)
  then have "\<bar>real_of_int m\<bar> < 2 ^ 53" by simp
  then have "\<bar>real_of_int m\<bar> * pow2 k < 2 ^ 53 * pow2 k"
    using pow2_pos [of k] by (simp only: mult_less_cancel_right_pos)
  moreover have "(2::real) ^ 53 = pow2 53" by (simp add: pow2_def)
  moreover have "\<bar>x\<bar> = \<bar>real_of_int m\<bar> * pow2 k"
    using pow2_pos [of k] by (simp add: x_def abs_mult)
  ultimately have "\<bar>x\<bar> < pow2 (53 + k)" by (simp add: pow2_add)
  moreover from ilog2_bounds [OF xp] have "pow2 (ilog2 \<bar>x\<bar>) \<le> \<bar>x\<bar>" by simp
  ultimately have "pow2 (ilog2 \<bar>x\<bar>) < pow2 (53 + k)" by linarith
  then have "ilog2 \<bar>x\<bar> < 53 + k" by (simp only: pow2_less_iff)
  with assms(3) have j: "0 \<le> k - (e - 52)" by (simp add: e_def)
  define j where "j = nat (k - (e - 52))"
  have "pow2 k = pow2 ((k - (e - 52)) + (e - 52))" by simp
  also have "\<dots> = pow2 (k - (e - 52)) * u" unfolding u_def by (rule pow2_add)
  also have "pow2 (k - (e - 52)) = 2 ^ j" using j by (simp add: pow2_def j_def)
  finally have pk: "pow2 k = 2 ^ j * u" .
  have "x / u = real_of_int m * 2 ^ j" using up by (simp add: x_def pk)
  also have "\<dots> = real_of_int (m * 2 ^ j)" by simp
  finally have q: "x / u = real_of_int (m * 2 ^ j)" .
  have "real_of_int (round_half_even (x / u)) * u = real_of_int (m * 2 ^ j) * u"
    unfolding q round_half_even_of_int ..
  also have "\<dots> = x" by (simp add: x_def pk)
  finally have r: "real_of_int (round_half_even (x / u)) * u = x" .
  from assms(4) have "\<not> pow2 1024 \<le> \<bar>x\<bar>" by (simp add: x_def)
  with x0 r have "round64 x = Fin x"
    by (simp add: round64_def Let_def e_def [symmetric] u_def [symmetric])
  then show ?thesis by (simp only: x_def)
qed

lemma round64_of_int:
  assumes "\<bar>n\<bar> < 2 ^ 53"
  shows "round64 (of_int n) = Fin (of_int n)"
proof (cases "n = 0")
  case True
  then show ?thesis by (simp add: round64_def)
next
  case False
  have p0: "pow2 0 = 1" by (simp add: pow2_def)
  from assms have "real_of_int \<bar>n\<bar> < real_of_int (2 ^ 53)" by (simp only: of_int_less_iff)
  then have "\<bar>real_of_int n\<bar> < 2 ^ 53" by simp
  also have "(2::real) ^ 53 = pow2 53" by (simp add: pow2_def)
  also have "pow2 53 < pow2 1024" by (simp only: pow2_less_iff)
  finally have "\<bar>real_of_int n * pow2 0\<bar> < pow2 1024" by (simp add: p0)
  from round64_scaled_int [OF False assms _ this] show ?thesis by (simp add: p0)
qed

lemma round64_idem:
  assumes "round64 x = Fin r"
  shows "round64 r = Fin r"
proof (cases "x = 0")
  case True
  with assms have "r = 0" by (simp add: round64_def)
  then show ?thesis by (simp add: round64_def)
next
  case False
  define e where "e = max (ilog2 \<bar>x\<bar>) (- 1022)"
  define u where "u = pow2 (e - 52)"
  define M where "M = round_half_even (x / u)"
  have up: "0 < u" by (simp add: u_def pow2_pos)
  from assms False have r: "r = real_of_int M * u" and fin: "\<bar>real_of_int M * u\<bar> < pow2 1024"
    by (simp_all add: round64_def Let_def e_def [symmetric] u_def [symmetric] M_def [symmetric]
        split: if_splits)
  from False have xp: "0 < \<bar>x\<bar>" by simp
  from ilog2_bounds [OF xp] have "\<bar>x\<bar> < pow2 (ilog2 \<bar>x\<bar> + 1)" by simp
  also have "\<dots> \<le> pow2 (e + 1)" by (simp only: pow2_le_iff) (simp add: e_def)
  also have "e + 1 = 53 + (e - 52)" by simp
  also have "pow2 (53 + (e - 52)) = pow2 53 * u" unfolding u_def by (rule pow2_add)
  also have "pow2 53 = 2 ^ 53" by (simp add: pow2_def)
  finally have "\<bar>x\<bar> / u < 2 ^ 53" using up by (simp add: field_simps)
  moreover from up have "\<bar>u\<bar> = u" by simp
  ultimately have b: "\<bar>x / u\<bar> < 2 ^ 53" by (simp only: abs_divide)
  have "real_of_int (2 ^ 53) = (2::real) ^ 53" by simp
  with b have "x / u < real_of_int (2 ^ 53)" and "real_of_int (- (2 ^ 53)) \<le> x / u"
    by linarith+
  then have f0: "\<lfloor>x / u\<rfloor> < 2 ^ 53" "- (2 ^ 53) \<le> \<lfloor>x / u\<rfloor>"
    by (simp_all only: floor_less_iff le_floor_iff)
  define F where "F = \<lfloor>x / u\<rfloor>"
  from f0 have f1: "F < 2 ^ 53" "- (2 ^ 53) \<le> F" by (simp_all only: F_def)
  from round_half_even_bounds [of "x / u"] have f2: "F \<le> M" "M \<le> F + 1"
    by (simp_all only: M_def F_def)
  from f1 f2 have Mb: "\<bar>M\<bar> \<le> 2 ^ 53" by simp
  have k: "- 1074 \<le> e - 52" by (simp add: e_def)
  show ?thesis
  proof (cases "M = 0")
    case True
    with r show ?thesis by (simp add: round64_def)
  next
    case M0: False
    show ?thesis
    proof (cases "\<bar>M\<bar> < 2 ^ 53")
      case True
      from round64_scaled_int [OF M0 True k] fin show ?thesis by (simp add: r u_def)
    next
      case False
      with Mb have "\<bar>M\<bar> = 2 ^ 53" by simp
      then consider "M = 2 ^ 53" | "M = - (2 ^ 53)" by linarith
      then obtain M' :: int where M': "M = 2 * M'" "M' \<noteq> 0" "\<bar>M'\<bar> < 2 ^ 53"
        by cases (fastforce intro: that [of "2 ^ 52"], fastforce intro: that [of "- (2 ^ 52)"])
      have "pow2 (e - 51) = pow2 (1 + (e - 52))" by simp
      also have "\<dots> = pow2 1 * u" unfolding u_def by (rule pow2_add)
      also have "pow2 1 = 2" by (simp add: pow2_def)
      finally have "pow2 (e - 51) = 2 * u" .
      then have eq: "real_of_int M * u = real_of_int M' * pow2 (e - 51)" by (simp add: M')
      from k have k': "- 1074 \<le> e - 51" by simp
      from round64_scaled_int [OF M'(2,3) k'] fin show ?thesis by (simp add: r eq)
    qed
  qed
qed

lemma round64_zero: "round64 0 = Fin 0"
  by (simp add: round64_def)

lemma round64_numeral:
  "numeral k < (2 :: int) ^ 53 \<Longrightarrow> round64 (numeral k) = Fin (numeral k)"
  using round64_of_int [of "numeral k"] by simp

lemma round64_neg_numeral:
  "numeral k < (2 :: int) ^ 53 \<Longrightarrow> round64 (- numeral k) = Fin (- numeral k)"
  using round64_of_int [of "- numeral k"] by simp

lemma round64_one: "round64 1 = Fin 1"
  using round64_of_int [of 1] by simp

lemmas round64_ints = round64_zero round64_one round64_numeral round64_neg_numeral

lemma round64_scaled_int_small:
  assumes "m \<noteq> 0" and "\<bar>m\<bar> < 2 ^ 53" and "- 1074 \<le> k" and "k < 971"
  shows "round64 (of_int m * pow2 k) = Fin (of_int m * pow2 k)"
proof -
  from assms(2) have "real_of_int \<bar>m\<bar> < real_of_int (2 ^ 53)" by (simp only: of_int_less_iff)
  then have "\<bar>real_of_int m\<bar> < 2 ^ 53" by simp
  then have "\<bar>real_of_int m\<bar> * pow2 k < 2 ^ 53 * pow2 k"
    using pow2_pos [of k] by (simp only: mult_less_cancel_right_pos)
  moreover have "(2::real) ^ 53 = pow2 53" by (simp add: pow2_def)
  moreover have "\<bar>real_of_int m * pow2 k\<bar> = \<bar>real_of_int m\<bar> * pow2 k"
    using pow2_pos [of k] by (simp add: abs_mult)
  ultimately have "\<bar>real_of_int m * pow2 k\<bar> < pow2 (53 + k)" by (simp add: pow2_add)
  moreover from assms(4) have "pow2 (53 + k) \<le> pow2 1024" by (simp only: pow2_le_iff)
  ultimately have "\<bar>real_of_int m * pow2 k\<bar> < pow2 1024" by linarith
  with assms(1-3) show ?thesis by (rule round64_scaled_int)
qed

lemma round_half_even_near:
  assumes "\<bar>real_of_int m - r\<bar> < 1 / 2"
  shows "round_half_even r = m"
proof (cases "real_of_int m \<le> r")
  case True
  with assms have "\<lfloor>r\<rfloor> = m" by (intro floor_unique) linarith+
  moreover from True assms have "r - real_of_int m < 1 / 2" by linarith
  ultimately show ?thesis by (simp add: round_half_even_def)
next
  case False
  with assms have f: "\<lfloor>r\<rfloor> = m - 1" by (intro floor_unique) (simp, linarith+)
  from False assms have "1 / 2 < r - real_of_int (m - 1)" by simp
  with f show ?thesis by (simp add: round_half_even_def Let_def)
qed

lemma round64_eval:
  assumes "pow2 e \<le> \<bar>x\<bar>" and "\<bar>x\<bar> < pow2 (e + 1)" and "- 1022 \<le> e" and "e < 1023"
    and "\<bar>real_of_int m - x / pow2 (e - 52)\<bar> < 1 / 2"
  shows "round64 x = Fin (of_int m * pow2 (e - 52))"
proof -
  define u where "u = pow2 (e - 52)"
  have up: "0 < u" by (simp add: u_def pow2_pos)
  from assms(1) pow2_pos [of e] have xp: "0 < \<bar>x\<bar>" by linarith
  then have x0: "x \<noteq> 0" by simp
  from xp assms(1,2) have "ilog2 \<bar>x\<bar> = e" by (rule ilog2_eqI)
  with assms(3) have e: "max (ilog2 \<bar>x\<bar>) (- 1022) = e" by simp
  from assms(5) have m: "round_half_even (x / u) = m" unfolding u_def by (rule round_half_even_near)
  have "pow2 (e + 1) = pow2 (53 + (e - 52))" by (rule arg_cong [where f = pow2]) simp
  also have "\<dots> = pow2 53 * u" unfolding u_def by (rule pow2_add)
  also have "pow2 53 = 2 ^ 53" by (simp add: pow2_def)
  finally have top: "pow2 (e + 1) = 2 ^ 53 * u" .
  with assms(2) have "\<bar>x\<bar> < 2 ^ 53 * u" by simp
  then have "\<bar>x\<bar> / u < 2 ^ 53" using up by (simp add: field_simps)
  moreover from up have "\<bar>u\<bar> = u" by simp
  ultimately have "\<bar>x / u\<bar> < 2 ^ 53" by (simp only: abs_divide)
  moreover from assms(5) have "\<bar>real_of_int m - x / u\<bar> < 1 / 2" by (simp only: u_def)
  ultimately have "\<bar>real_of_int m\<bar> < 2 ^ 53 + 1" by linarith
  moreover have "(2::real) ^ 53 + 1 = real_of_int (2 ^ 53 + 1)" by simp
  ultimately have "real_of_int \<bar>m\<bar> < real_of_int (2 ^ 53 + 1)" by simp
  then have "\<bar>m\<bar> < 2 ^ 53 + 1" by (simp only: of_int_less_iff)
  then have "\<bar>m\<bar> \<le> 2 ^ 53" by simp
  then have "real_of_int \<bar>m\<bar> \<le> real_of_int (2 ^ 53)" by (simp only: of_int_le_iff)
  then have "\<bar>real_of_int m\<bar> \<le> 2 ^ 53" by simp
  then have "\<bar>real_of_int m\<bar> * u \<le> 2 ^ 53 * u" using up by (simp only: mult_le_cancel_right_pos)
  moreover from top have "(2::real) ^ 53 * u = pow2 (e + 1)" by simp
  moreover from assms(4) have "pow2 (e + 1) < pow2 1024" by (simp only: pow2_less_iff)
  moreover have "\<bar>real_of_int m * u\<bar> = \<bar>real_of_int m\<bar> * u" using up by (simp add: abs_mult)
  ultimately have "\<not> pow2 1024 \<le> \<bar>real_of_int m * u\<bar>" by linarith
  with x0 show ?thesis
    by (simp add: round64_def Let_def e u_def [symmetric] m)
qed

lemma near_0_1_binary64: "binary64 near_0_1"
proof -
  have "near_0_1 = real_of_int 3602879701896397 * pow2 (- 55)"
    by (simp add: near_0_1_def pow2_def)
  moreover have "round64 (real_of_int 3602879701896397 * pow2 (- 55))
      = Fin (real_of_int 3602879701896397 * pow2 (- 55))"
    by (rule round64_scaled_int_small) simp_all
  ultimately show ?thesis by (simp only: binary64_def)
qed

lemma near_5_1_binary64: "binary64 near_5_1"
proof -
  have "near_5_1 = real_of_int 2871044762448691 * pow2 (- 49)"
    by (simp add: near_5_1_def pow2_def)
  moreover have "round64 (real_of_int 2871044762448691 * pow2 (- 49))
      = Fin (real_of_int 2871044762448691 * pow2 (- 49))"
    by (rule round64_scaled_int_small) simp_all
  ultimately show ?thesis by (simp only: binary64_def)
qed

lemma near_difference_rounds_to_5: "round64 (near_5_1 - near_0_1) = Fin 5"
proof -
  have "round64 (near_5_1 - near_0_1) = Fin (real_of_int 5629499534213120 * pow2 (2 - 52))"
    by (rule round64_eval) (simp_all add: near_5_1_def near_0_1_def pow2_def)
  then show ?thesis by (simp add: pow2_def)
qed

lemma quotient_800_302: "round64 (800 / 302) = Fin (5965032619033770 / 2 ^ 51)"
proof -
  have "round64 (800 / 302) = Fin (real_of_int 5965032619033770 * pow2 (1 - 52))"
    by (rule round64_eval) (simp_all add: pow2_def)
  then show ?thesis by (simp add: pow2_def)
qed

lemma product_302_quotient: "round64 (302 * (5965032619033770 / 2 ^ 51)) = Fin (800 + 1 / 2 ^ 43)"
proof -
  have "round64 (302 * (5965032619033770 / 2 ^ 51))
      = Fin (real_of_int 7036874417766401 * pow2 (9 - 52))"
    by (rule round64_eval) (simp_all add: pow2_def)
  then show ?thesis by (simp add: pow2_def)
qed

section \<open>The registry: unique ids and the count\<close>

lemma get_in_None: "(get_in ts i = None) = (i \<notin> touch_id ` set ts)"
  by (induction ts) auto

lemma ids_remove_in: "distinct (map touch_id ts) \<Longrightarrow> touch_id ` set (remove_in ts i) = touch_id ` set ts - {i}"
proof (induction ts)
  case Nil
  then show ?case by simp
next
  case (Cons t ts)
  show ?case
  proof (cases "touch_id t = i")
    case True
    with Cons.prems have "i \<notin> touch_id ` set ts" by auto
    with True show ?thesis by auto
  next
    case False
    with Cons show ?thesis by auto
  qed
qed

lemma set_remove_in_subset: "set (remove_in ts i) \<subseteq> set ts"
  by (induction ts) auto

lemma distinct_remove_in: "distinct (map touch_id ts) \<Longrightarrow> distinct (map touch_id (remove_in ts i))"
proof (induction ts)
  case Nil
  then show ?case by simp
next
  case (Cons t ts)
  have "touch_id t \<notin> touch_id ` set ts \<Longrightarrow> touch_id t \<notin> touch_id ` set (remove_in ts i)"
    using set_remove_in_subset [of ts i] by blast
  with Cons show ?case by auto
qed

lemma down_touches:
  "touches (fst (down vp e s)) =
     (if ignored vp then touches s
      else if pointerType e = ''mouse'' then touches s
      else if pointerId e \<in> ids_of s then touches s
      else touches s @ [\<lparr>touch_id = pointerId e, touch_last = None\<rparr>])"
  by (simp add: down_def Let_def get_def get_in_None ids_of_def ignored_def)

lemma down_isMouseDown:
  "isMouseDown (fst (down vp e s)) =
     (if ignored vp then isMouseDown s
      else if pointerType e = ''mouse'' then True else isMouseDown s)"
  by (simp add: down_def Let_def ignored_def)

lemma up_touches:
  "touches (fst (up vp e s)) =
     (if ignored vp then touches s
      else if pointerType e = ''mouse'' then touches s
      else remove_in (touches s) (pointerId e))"
  by (simp add: up_def Let_def remove_touch_def ignored_def)

lemma up_isMouseDown:
  "isMouseDown (fst (up vp e s)) =
     (if ignored vp then isMouseDown s
      else if pointerType e = ''mouse'' then False else isMouseDown s)"
  by (simp add: up_def Let_def remove_touch_def ignored_def)

lemma move_registry:
  "touches (fst (move vp e s)) = touches s" "isMouseDown (fst (move vp e s)) = isMouseDown s"
  by (simp_all add: move_def Let_def)

lemma step_unique_ids: "unique_ids s \<Longrightarrow> unique_ids (fst (step a s))"
proof (cases a)
  case (Down vp e)
  then show "unique_ids s \<Longrightarrow> unique_ids (fst (step a s))"
    by (auto simp: unique_ids_def down_touches ids_of_def)
next
  case (Up vp e)
  then show "unique_ids s \<Longrightarrow> unique_ids (fst (step a s))"
    by (auto simp: unique_ids_def up_touches distinct_remove_in)
qed (simp_all add: unique_ids_def move_registry pause_def clear_def)

lemma step_registry:
  "unique_ids s \<Longrightarrow>
   (ids_of (fst (step a s)), isMouseDown (fst (step a s))) = spec_step a (ids_of s, isMouseDown s)"
proof (cases a)
  case (Down vp e)
  then show "unique_ids s \<Longrightarrow> ?thesis"
    by (auto simp: ids_of_def down_touches down_isMouseDown)
next
  case (Up vp e)
  then show "unique_ids s \<Longrightarrow> ?thesis"
    by (auto simp: ids_of_def unique_ids_def up_touches up_isMouseDown ids_remove_in)
qed (simp_all add: ids_of_def move_registry pause_def clear_def)

lemma fst_run_Cons: "fst (run s (a # as)) = fst (run (fst (step a s)) as)"
  by (simp split: prod.splits)

lemma run_unique_ids: "unique_ids s \<Longrightarrow> unique_ids (fst (run s as))"
proof (induction as arbitrary: s)
  case Nil
  then show ?case by simp
next
  case (Cons a as)
  then show ?case unfolding fst_run_Cons by (simp add: step_unique_ids)
qed

lemma run_registry:
  "unique_ids s \<Longrightarrow>
   (ids_of (fst (run s as)), isMouseDown (fst (run s as))) = spec_run (ids_of s, isMouseDown s) as"
proof (induction as arbitrary: s)
  case Nil
  then show ?case by simp
next
  case (Cons a as)
  have "unique_ids (fst (step a s))" using Cons.prems by (rule step_unique_ids)
  from Cons.IH [OF this] show ?case
    unfolding fst_run_Cons by (simp add: step_registry [OF Cons.prems])
qed

lemma count_card: "unique_ids s \<Longrightarrow> count s = int (card (ids_of s)) + (if isMouseDown s then 1 else 0)"
proof -
  assume "unique_ids s"
  then have "card (set (map touch_id (touches s))) = length (map touch_id (touches s))"
    unfolding unique_ids_def by (rule distinct_card)
  then show ?thesis by (simp add: count_def ids_of_def)
qed

lemma fst_run_append: "fst (run s (as @ bs)) = fst (run (fst (run s as)) bs)"
proof (induction as arbitrary: s)
  case Nil
  then show ?case by simp
next
  case (Cons a as)
  show ?case using Cons.IH [of "fst (step a s)"] by (simp only: append_Cons fst_run_Cons)
qed

lemma fst_run_Nil: "fst (run s []) = s"
  by simp

lemma new_manager_unique: "unique_ids new_manager"
  by (simp add: unique_ids_def new_manager_def)

lemma ignored_demo: "ignored demo_viewport = False"
  by (simp add: ignored_def demo_viewport_def)

lemma demo_fields:
  "threshold demo_viewport = 5" "decelerate demo_viewport = None"
  "bounce demo_viewport = Some False" "toLocal demo_viewport = (\<lambda>p. p)"
  "toWorld demo_viewport = (\<lambda>p. JSPoint (Fin (px p)) (Fin (py p)))"
  "canvasElement demo_viewport = demo_canvas"
  "vp_left demo_viewport = Fin 0" "vp_right demo_viewport = Fin 800"
  "vp_top demo_viewport = Fin 0" "vp_bottom demo_viewport = Fin 600"
  "plugins_wheel demo_viewport = (\<lambda>e. True)" "opt_passiveWheel demo_viewport = False"
  by (simp_all add: demo_viewport_def)

lemma demo_armed_fields:
  "clickedAvailable demo_armed = Some True" "last_point demo_armed = Some (Point 3 4)"
  "touches demo_armed = [\<lparr>touch_id = 1, touch_last = None\<rparr>]" "isMouseDown demo_armed = False"
  by (simp_all add: demo_armed_def)

lemma touch_at_fields:
  "pointerType (touch_at i x y) = ''touch''" "pointerId (touch_at i x y) = i"
  "clientX (touch_at i x y) = x" "clientY (touch_at i x y) = y"
  by (simp_all add: touch_at_def)

lemma mouse_at_fields:
  "pointerType (mouse_at x y) = ''mouse''" "clientX (mouse_at x y) = x" "clientY (mouse_at x y) = y"
  by (simp_all add: mouse_at_def)

text \<open>
  Claim C8. Whatever calls are made on a new manager (touch and mouse downs, ups, also for
  ids that were never registered, moves, wheels, \<open>pause\<close>, \<open>clear\<close>), \<open>count()\<close> is not
  negative and is the number of distinct registered touch ids plus one when the mouse flag
  is set; the registered ids and the flag are the ones the specification's registry holds.
\<close>

theorem count_tracks_registered_ids:
  "0 \<le> count (fst (run new_manager as))
   \<and> count (fst (run new_manager as)) =
       int (card (ids_of (fst (run new_manager as))))
       + (if isMouseDown (fst (run new_manager as)) then 1 else 0)
   \<and> (ids_of (fst (run new_manager as)), isMouseDown (fst (run new_manager as)))
       = spec_run ({}, False) as"
proof -
  have "0 \<le> count (fst (run new_manager as))" by (simp add: count_def)
  moreover have "count (fst (run new_manager as)) =
       int (card (ids_of (fst (run new_manager as))))
       + (if isMouseDown (fst (run new_manager as)) then 1 else 0)"
    by (rule count_card [OF run_unique_ids [OF new_manager_unique]])
  moreover have "(ids_of (fst (run new_manager as)), isMouseDown (fst (run new_manager as)))
       = spec_run ({}, False) as"
    using run_registry [OF new_manager_unique, of as] by (simp add: ids_of_def new_manager_def)
  ultimately show ?thesis by blast
qed

theorem count_tracks_registered_ids_witness:
  "spec_run ({}, False)
     [Up demo_viewport (touch_at 9 0 0), Down demo_viewport (touch_at 1 3 4),
      Down demo_viewport (mouse_at 0 0), Down demo_viewport (touch_at 1 3 4),
      Down demo_viewport (touch_at 2 5 5), Up demo_viewport (touch_at 7 0 0)] = ({1, 2}, True)
   \<and> count (fst (run new_manager
     [Up demo_viewport (touch_at 9 0 0), Down demo_viewport (touch_at 1 3 4),
      Down demo_viewport (mouse_at 0 0), Down demo_viewport (touch_at 1 3 4),
      Down demo_viewport (touch_at 2 5 5), Up demo_viewport (touch_at 7 0 0)])) = 3"
proof -
  let ?as = "[Up demo_viewport (touch_at 9 0 0), Down demo_viewport (touch_at 1 3 4),
      Down demo_viewport (mouse_at 0 0), Down demo_viewport (touch_at 1 3 4),
      Down demo_viewport (touch_at 2 5 5), Up demo_viewport (touch_at 7 0 0)]"
  let ?s = "fst (run new_manager ?as)"
  have sr: "spec_run ({}, False) ?as = ({1, 2}, True)"
    by (simp add: ignored_demo touch_at_def mouse_at_def insert_commute)
  have c: "count ?s = int (card (ids_of ?s)) + (if isMouseDown ?s then 1 else 0)"
    and r: "(ids_of ?s, isMouseDown ?s) = spec_run ({}, False) ?as"
    using count_tracks_registered_ids [of ?as] by blast+
  from r have "ids_of ?s = {1, 2}" and "isMouseDown ?s" unfolding sr by blast+
  with c have "count ?s = 3" by (simp only: card.empty card_insert_disjoint finite.intros) simp
  with sr show ?thesis by blast
qed

lemma kept_by_step:
  "i \<in> ids_of s \<Longrightarrow> unique_ids s \<Longrightarrow> \<not> unregisters i a \<Longrightarrow> i \<in> ids_of (fst (step a s))"
proof (cases a)
  case (Down vp e)
  then show "i \<in> ids_of s \<Longrightarrow> ?thesis" by (auto simp: ids_of_def down_touches)
next
  case (Up vp e)
  assume "i \<in> ids_of s" "unique_ids s" "\<not> unregisters i a"
  with Up show ?thesis
    by (auto simp: ids_of_def unique_ids_def up_touches ids_remove_in split: if_splits)
qed (simp_all add: ids_of_def move_registry)

lemma kept_by_run:
  "i \<in> ids_of s \<Longrightarrow> unique_ids s \<Longrightarrow> \<not> list_ex (unregisters i) as \<Longrightarrow> i \<in> ids_of (fst (run s as))"
proof (induction as arbitrary: s)
  case Nil
  then show ?case by simp
next
  case (Cons a as)
  from Cons.prems have "i \<in> ids_of (fst (step a s))" "unique_ids (fst (step a s))"
    by (simp_all add: kept_by_step step_unique_ids)
  with Cons.prems Cons.IH [of "fst (step a s)"] show ?case
    unfolding fst_run_Cons by simp
qed

lemma one_contact_per_id:
  "unique_ids s \<Longrightarrow> i \<in> ids_of s \<Longrightarrow> length (filter (\<lambda>t. touch_id t = i) (touches s)) = 1"
proof -
  assume u: "unique_ids s" and i: "i \<in> ids_of s"
  have "distinct xs \<Longrightarrow> x \<in> set xs \<Longrightarrow> length (filter (\<lambda>y. y = x) xs) = 1" for xs :: "int list" and x
    by (induction xs) (auto simp: filter_empty_conv)
  from this [of "map touch_id (touches s)" i] u i
  have "length (filter (\<lambda>y. y = i) (map touch_id (touches s))) = 1"
    by (simp add: unique_ids_def ids_of_def)
  then show ?thesis by (simp add: filter_map o_def)
qed

text \<open>
  Claim C7. After a processed touch down for an id, a second down for the same id with no
  unregistering call in between (no processed up for that id, no \<open>pause\<close>, no \<open>clear\<close>)
  leaves exactly one contact with that id in the registry, whatever was called before.
\<close>

theorem duplicate_down_keeps_one_contact:
  assumes "\<not> ignored vp1" and "pointerType e1 \<noteq> ''mouse''" and "pointerId e2 = pointerId e1"
    and "\<not> list_ex (unregisters (pointerId e1)) mid"
  shows "length (filter (\<lambda>t. touch_id t = pointerId e1)
           (touches (fst (run new_manager (pre @ Down vp1 e1 # mid @ [Down vp2 e2]))))) = 1"
proof -
  let ?s0 = "fst (run new_manager pre)"
  let ?s1 = "fst (step (Down vp1 e1) ?s0)"
  let ?s2 = "fst (run ?s1 mid)"
  let ?s3 = "fst (step (Down vp2 e2) ?s2)"
  have fin: "fst (run new_manager (pre @ Down vp1 e1 # mid @ [Down vp2 e2])) = ?s3"
    by (simp only: fst_run_append fst_run_Cons fst_run_Nil)
  have u0: "unique_ids ?s0" by (rule run_unique_ids [OF new_manager_unique])
  then have u1: "unique_ids ?s1" by (rule step_unique_ids)
  then have u2: "unique_ids ?s2" by (rule run_unique_ids)
  then have u3: "unique_ids ?s3" by (rule step_unique_ids)
  have "pointerId e1 \<in> ids_of ?s1"
    using assms(1,2) by (simp add: ids_of_def down_touches)
  then have "pointerId e1 \<in> ids_of ?s2" using u1 assms(4) by (rule kept_by_run)
  then have "pointerId e1 \<in> ids_of ?s3"
    by (auto simp: ids_of_def down_touches)
  with u3 show ?thesis unfolding fin by (rule one_contact_per_id)
qed

theorem duplicate_down_keeps_one_contact_witness:
  "\<not> ignored demo_viewport \<and> pointerType (touch_at 1 3 4) \<noteq> ''mouse''
   \<and> \<not> list_ex (unregisters 1) [Move demo_viewport (touch_at 1 4 4), Up demo_viewport (touch_at 2 0 0)]
   \<and> length (filter (\<lambda>t. touch_id t = 1)
        (touches (fst (run new_manager
          [Down demo_viewport (touch_at 1 3 4), Move demo_viewport (touch_at 1 4 4),
           Up demo_viewport (touch_at 2 0 0), Down demo_viewport (touch_at 1 8 8)])))) = 1"
proof -
  have a: "\<not> ignored demo_viewport" and b: "pointerType (touch_at 1 3 4) \<noteq> ''mouse''"
    and c: "pointerId (touch_at 1 8 8) = pointerId (touch_at 1 3 4)"
    and d: "\<not> list_ex (unregisters (pointerId (touch_at 1 3 4)))
              [Move demo_viewport (touch_at 1 4 4), Up demo_viewport (touch_at 2 0 0)]"
    by (simp_all add: ignored_demo touch_at_def)
  have i: "pointerId (touch_at 1 3 4) = 1" by (simp add: touch_at_def)
  from duplicate_down_keeps_one_contact [OF a b c d, of "[]" demo_viewport] a b d
  show ?thesis unfolding i by (simp only: append_Nil append_Cons simp_thms)
qed

section \<open>Down events: arming the click detector\<close>

lemma absent_or_inactive_iff: "absent_or_inactive p = (\<not> present_and_active p)"
  by (cases p) (simp_all add: absent_or_inactive_def present_and_active_def)

lemma ignored_iff: "ignored vp = (vp_pause vp \<or> \<not> worldVisible vp)"
  by (simp add: ignored_def)

lemma down_count:
  "count (fst (down vp e s)) =
     (if ignored vp then count s
      else if pointerType e = ''mouse'' then 1 + int (length (touches s))
      else if pointerId e \<in> ids_of s then count s else count s + 1)"
  by (simp add: count_def down_touches down_isMouseDown)

lemma down_clickedAvailable:
  "\<not> ignored vp \<Longrightarrow>
   clickedAvailable (fst (down vp e s)) =
     Some (count (fst (down vp e s)) = 1
           \<and> absent_or_inactive (decelerate vp) \<and> absent_or_inactive (bounce vp))"
  by (simp add: down_def Let_def ignored_iff count_def)

text \<open>
  Claim C4. A processed down event leaves a count of at least 1. When the count is exactly
  1, \<open>clickedAvailable\<close> is set to true if neither \<open>decelerate\<close> nor \<open>bounce\<close> is present and
  active, and to false otherwise; when the count exceeds 1 it is set to false.
\<close>

theorem down_arms_iff_single_and_idle_plugins:
  assumes "\<not> ignored vp"
  shows "1 \<le> count (fst (down vp e s))
    \<and> (count (fst (down vp e s)) = 1 \<longrightarrow>
         clickedAvailable (fst (down vp e s))
           = Some (\<not> present_and_active (decelerate vp) \<and> \<not> present_and_active (bounce vp)))
    \<and> (1 < count (fst (down vp e s)) \<longrightarrow>
         clickedAvailable (fst (down vp e s)) = Some False)"
proof -
  have "1 \<le> count (fst (down vp e s))"
  proof (cases "pointerType e = ''mouse''")
    case True
    with assms show ?thesis by (simp add: down_count)
  next
    case False
    have "pointerId e \<in> ids_of s \<Longrightarrow> touches s \<noteq> []" by (auto simp: ids_of_def)
    then have "pointerId e \<in> ids_of s \<Longrightarrow> 1 \<le> count s"
      by (cases "touches s") (simp_all add: count_def)
    moreover have "0 \<le> count s" by (simp add: count_def)
    ultimately show ?thesis using assms False by (simp add: down_count)
  qed
  moreover have "clickedAvailable (fst (down vp e s)) =
     Some (count (fst (down vp e s)) = 1
           \<and> \<not> present_and_active (decelerate vp) \<and> \<not> present_and_active (bounce vp))"
    using down_clickedAvailable [OF assms] by (simp add: absent_or_inactive_iff)
  ultimately show ?thesis by simp
qed

theorem down_arms_iff_single_and_idle_plugins_witness:
  "\<not> ignored demo_viewport
   \<and> count (fst (down demo_viewport (touch_at 1 3 4) new_manager)) = 1
   \<and> clickedAvailable (fst (down demo_viewport (touch_at 1 3 4) new_manager)) = Some True
   \<and> count (fst (down demo_viewport (mouse_at 0 0) demo_armed)) = 2
   \<and> clickedAvailable (fst (down demo_viewport (mouse_at 0 0) demo_armed)) = Some False"
proof -
  have i: "\<not> ignored demo_viewport" by (simp add: ignored_demo)
  have n: "count new_manager = 0" "ids_of new_manager = {}"
    by (simp_all add: new_manager_def count_def ids_of_def)
  have a: "count (fst (down demo_viewport (touch_at 1 3 4) new_manager)) = 1"
    by (simp add: down_count ignored_demo touch_at_fields n)
  have b: "count (fst (down demo_viewport (mouse_at 0 0) demo_armed)) = 2"
    by (simp add: down_count ignored_demo mouse_at_fields demo_armed_fields)
  from down_arms_iff_single_and_idle_plugins [OF i, of "touch_at 1 3 4" new_manager] a
  have c: "clickedAvailable (fst (down demo_viewport (touch_at 1 3 4) new_manager)) = Some True"
    by (simp add: demo_fields present_and_active_def)
  from down_arms_iff_single_and_idle_plugins [OF i, of "mouse_at 0 0" demo_armed] b
  have d: "clickedAvailable (fst (down demo_viewport (mouse_at 0 0) demo_armed)) = Some False"
    by simp
  from i a b c d show ?thesis by blast
qed

text \<open>
  Claim C9. A processed down event for a touch id that is already registered, while that
  touch is the only pressed pointer, leaves the registry and the count as they are, but
  stores the event's client coordinates as the reference point and sets \<open>clickedAvailable\<close>
  anew from the \<open>decelerate\<close> and \<open>bounce\<close> indicators.
\<close>

theorem duplicate_down_rearms:
  assumes "\<not> ignored vp" and "pointerType e \<noteq> ''mouse''"
    and "get s (pointerId e) \<noteq> None" and "count s = 1"
  shows "fst (down vp e s) =
           s\<lparr>last_point := Some (Point (clientX e) (clientY e)),
             clickedAvailable :=
               Some (\<not> present_and_active (decelerate vp) \<and> \<not> present_and_active (bounce vp))\<rparr>
    \<and> touches (fst (down vp e s)) = touches s
    \<and> count (fst (down vp e s)) = 1"
proof -
  from assms(3) have "touches s \<noteq> []" by (auto simp: get_def)
  with assms(4) have m: "\<not> isMouseDown s" and l: "length (touches s) = 1"
    by (cases "touches s"; cases "isMouseDown s"; simp add: count_def)+
  have "fst (down vp e s) =
           s\<lparr>last_point := Some (Point (clientX e) (clientY e)),
             clickedAvailable :=
               Some (\<not> present_and_active (decelerate vp) \<and> \<not> present_and_active (bounce vp))\<rparr>"
    using assms(1-3) m l
    by (auto simp: down_def Let_def ignored_iff absent_or_inactive_iff count_def)
  then show ?thesis using assms(4) by (simp add: count_def)
qed

theorem duplicate_down_rearms_witness:
  "fst (down demo_viewport (touch_at 1 8 9) (demo_armed\<lparr>clickedAvailable := Some False\<rparr>))
     = demo_armed\<lparr>last_point := Some (Point 8 9)\<rparr>"
  using duplicate_down_rearms
          [of demo_viewport "touch_at 1 8 9" "demo_armed\<lparr>clickedAvailable := Some False\<rparr>"]
  by (simp add: ignored_demo demo_fields touch_at_fields present_and_active_def get_def count_def
      demo_armed_def)

section \<open>Move events: the threshold\<close>

lemma checkThreshold_reaches: "checkThreshold vp (js_sub a b) = reaches (threshold vp) a b"
  by (simp add: checkThreshold_def reaches_def js_sub_def)

lemma move_clickedAvailable:
  "\<not> ignored vp \<Longrightarrow> clickedAvailable s = Some True \<Longrightarrow> last_point s = Some (Point rx ry) \<Longrightarrow>
   fst (move vp e s) =
     (if reaches (threshold vp) (clientX e) rx \<or> reaches (threshold vp) (clientY e) ry
      then s\<lparr>clickedAvailable := Some False\<rparr> else s)"
  by (simp add: move_def Let_def ignored_iff checkThreshold_reaches)

lemma reaches_finite: "round64 (a - b) = Fin d \<Longrightarrow> reaches thr a b = (thr \<le> \<bar>d\<bar>)"
  by (simp add: reaches_def)

lemma demo_reaches:
  "reaches 5 7 3 = False" "reaches 5 8 4 = False" "reaches 5 8 3 = True"
  "reaches 5 3 3 = False" "reaches 5 (- 1) 4 = True" "reaches 5 4 4 = False"
  "reaches 5 near_5_1 near_0_1 = True"
  by (simp_all add: reaches_def round64_ints near_difference_rounds_to_5)

lemma demo_binary64:
  "binary64 near_0_1" "binary64 near_5_1" "binary64 4" "binary64 5" "binary64 7"
  "binary64 312" "binary64 10" "binary64 800" "binary64 302" "binary64 1"
  by (simp_all add: near_0_1_binary64 near_5_1_binary64) (simp_all add: binary64_def round64_ints)

text \<open>
  Claim C5, as amended. While a click is armed (\<open>clickedAvailable\<close> true and a reference
  point recorded), a processed move event sets \<open>clickedAvailable\<close> to false if and only if
  the displacement from the reference point, as the binary64 subtraction leaves it (the
  difference rounded to the nearest binary64 value), reaches the threshold in absolute
  value on the x axis or on the y axis; nothing else of the state changes.
\<close>

theorem move_disarms_iff_rounded_axis_reaches_threshold:
  assumes "\<not> ignored vp" and "clickedAvailable s = Some True"
    and "last_point s = Some (Point rx ry)"
  shows "clickedAvailable (fst (move vp e s))
           = Some (\<not> (reaches (threshold vp) (clientX e) rx
                      \<or> reaches (threshold vp) (clientY e) ry))
    \<and> (round64 (clientX e - rx) = Fin dx \<longrightarrow>
          reaches (threshold vp) (clientX e) rx = (threshold vp \<le> \<bar>dx\<bar>))
    \<and> (round64 (clientY e - ry) = Fin dy \<longrightarrow>
          reaches (threshold vp) (clientY e) ry = (threshold vp \<le> \<bar>dy\<bar>))
    \<and> last_point (fst (move vp e s)) = last_point s
    \<and> touches (fst (move vp e s)) = touches s
    \<and> isMouseDown (fst (move vp e s)) = isMouseDown s"
  using assms by (simp add: move_clickedAvailable [OF assms] move_registry reaches_finite)

theorem move_disarms_iff_rounded_axis_reaches_threshold_witness:
  "clickedAvailable (fst (move demo_viewport (touch_at 1 7 8) demo_armed)) = Some True
   \<and> clickedAvailable (fst (move demo_viewport (touch_at 1 8 4) demo_armed)) = Some False
   \<and> clickedAvailable (fst (move demo_viewport (touch_at 1 3 (- 1)) demo_armed)) = Some False"
  using move_disarms_iff_rounded_axis_reaches_threshold
          [of demo_viewport demo_armed 3 4 "touch_at 1 7 8"]
        move_disarms_iff_rounded_axis_reaches_threshold
          [of demo_viewport demo_armed 3 4 "touch_at 1 8 4"]
        move_disarms_iff_rounded_axis_reaches_threshold
          [of demo_viewport demo_armed 3 4 "touch_at 1 3 (- 1)"]
  by (simp add: ignored_demo demo_armed_fields demo_fields touch_at_fields demo_reaches)

text \<open>
  Claim C5 as stated, with the displacement taken as the real difference, does not hold.
  With the reference point at the binary64 value nearest to 0.1 and a move to the one
  nearest to 5.1, the real displacement is below the threshold 5 on both axes, yet the
  subtraction rounds to 5 and the move disarms the click.
\<close>

theorem rounded_move_disarms_below_threshold:
  "clickedAvailable (fst (move demo_viewport (touch_at 1 near_5_1 4) demo_armed_fraction))
     = Some False
   \<and> \<bar>near_5_1 - near_0_1\<bar> < threshold demo_viewport
   \<and> \<bar>4 - (4 :: real)\<bar> < threshold demo_viewport
   \<and> binary64 near_0_1 \<and> binary64 near_5_1 \<and> binary64 4
   \<and> binary64 (threshold demo_viewport)"
proof -
  have "fst (move demo_viewport (touch_at 1 near_5_1 4) demo_armed_fraction)
          = demo_armed_fraction\<lparr>clickedAvailable := Some False\<rparr>"
    using move_clickedAvailable
            [of demo_viewport demo_armed_fraction near_0_1 4 "touch_at 1 near_5_1 4"]
    by (simp add: ignored_demo demo_fields touch_at_fields demo_reaches demo_armed_fraction_def)
  moreover have "\<bar>near_5_1 - near_0_1\<bar> < 5" by (simp add: near_5_1_def near_0_1_def)
  ultimately show ?thesis by (simp add: demo_fields demo_binary64)
qed

section \<open>The mapper and the wheel gate\<close>

lemma js_mul_one: "(\<And>r. q = Fin r \<Longrightarrow> binary64 r) \<Longrightarrow> js_mul q (Fin 1) = q"
  by (cases q) (simp_all add: js_signed_inf_def binary64_def)

lemma js_signed_inf_not_Fin: "js_signed_inf a \<noteq> Fin r"
  by (simp add: js_signed_inf_def)

lemma js_mul_binary64: "js_mul a b = Fin r \<Longrightarrow> binary64 r"
proof (cases a; cases b)
  fix x y
  assume "js_mul a b = Fin r" and "a = Fin x" and "b = Fin y"
  then have "round64 (x * y) = Fin r" by simp
  then show "binary64 r" unfolding binary64_def by (rule round64_idem)
qed (simp_all add: js_signed_inf_not_Fin)

lemma js_mul_mul_one: "js_mul (js_mul a b) (Fin 1) = js_mul a b"
  by (rule js_mul_one) (rule js_mul_binary64)

lemma mapPositionToPoint_jx:
  "jx (mapPositionToPoint cv x y) =
     js_mul (js_sub x (rect_left (spec_rect cv)))
            (js_div (canvas_width cv) (rect_width (spec_rect cv)))"
  by (simp add: mapPositionToPoint_def Let_def js_mul_mul_one spec_rect_def)

lemma mapPositionToPoint_jy:
  "jy (mapPositionToPoint cv x y) =
     js_mul (js_sub y (rect_top (spec_rect cv)))
            (js_div (canvas_height cv) (rect_height (spec_rect cv)))"
  by (simp add: mapPositionToPoint_def Let_def js_mul_mul_one spec_rect_def)

lemma scale_rounded:
  "shown \<noteq> 0 \<Longrightarrow> round64 (screen - origin) = Fin d \<Longrightarrow> round64 (backing / shown) = Fin q \<Longrightarrow>
   js_mul (js_sub screen origin) (js_div backing shown) = round64 (d * q)"
  by (simp add: js_sub_def js_div_def)

lemma scale_exact:
  "shown \<noteq> 0 \<Longrightarrow> binary64 (screen - origin) \<Longrightarrow> binary64 (backing / shown) \<Longrightarrow>
   binary64 (spec_scale screen origin backing shown) \<Longrightarrow>
   js_mul (js_sub screen origin) (js_div backing shown)
     = Fin (spec_scale screen origin backing shown)"
  by (simp add: js_sub_def js_div_def binary64_def spec_scale_def)

lemma demo_mapping:
  "mapPositionToPoint demo_canvas 10 10 = JSPoint (Fin 0) (Fin 0)"
  "mapPositionToPoint demo_canvas 410 310 = JSPoint (Fin 800) (Fin 600)"
  "mapPositionToPoint demo_canvas 411 310 = JSPoint (Fin 802) (Fin 600)"
  by (simp_all add: mapPositionToPoint_def Let_def demo_canvas_def js_sub_def js_div_def
      round64_ints)

lemma demo_mapping_302:
  "jx (mapPositionToPoint demo_canvas_302 312 310) = Fin (800 + 1 / 2 ^ 43)"
proof -
  have "jx (mapPositionToPoint demo_canvas_302 312 310) = js_mul (js_sub 312 10) (js_div 800 302)"
    by (simp add: mapPositionToPoint_jx spec_rect_def demo_canvas_302_def)
  also have "js_sub 312 10 = Fin 302" by (simp add: js_sub_def round64_ints)
  also have "js_div 800 302 = Fin (5965032619033770 / 2 ^ 51)"
    using quotient_800_302 by (simp add: js_div_def)
  also have "js_mul (Fin 302) (Fin (5965032619033770 / 2 ^ 51)) = Fin (800 + 1 / 2 ^ 43)"
    using product_302_quotient by simp
  finally show ?thesis .
qed

text \<open>
  Claim C6, as amended. For every screen point and a rectangle whose width and height are
  not zero, the mapper returns \<open>(screenX - rect.left) * (backingWidth / rect.width)\<close> as
  binary64 arithmetic evaluates it, and the same on the y axis: the difference and the
  quotient are each rounded to the nearest binary64 value, and so is the product of the two
  rounded values. \<open>rect\<close> is the bounding rectangle of a canvas with a layout parent and
  \<open>{left: 0, top: 0, width: backingWidth, height: backingHeight}\<close> for a detached one. The
  result is the real number \<open>(screenX - rect.left) * (backingWidth / rect.width)\<close> whenever
  the difference, the quotient and that product are binary64 values. With a backing size
  of 800 by 600 shown as 400 by 300 at offset (10, 10), the screen point (10, 10) maps to
  (0, 0) and (410, 310) to (800, 600).
\<close>

theorem mapPositionToPoint_rounds_formula:
  "(rect_width (spec_rect cv) \<noteq> 0 \<and> round64 (x - rect_left (spec_rect cv)) = Fin dx
        \<and> round64 (canvas_width cv / rect_width (spec_rect cv)) = Fin qx \<longrightarrow>
      jx (mapPositionToPoint cv x y) = round64 (dx * qx))
   \<and> (rect_height (spec_rect cv) \<noteq> 0 \<and> round64 (y - rect_top (spec_rect cv)) = Fin dy
        \<and> round64 (canvas_height cv / rect_height (spec_rect cv)) = Fin qy \<longrightarrow>
      jy (mapPositionToPoint cv x y) = round64 (dy * qy))
   \<and> (rect_width (spec_rect cv) \<noteq> 0 \<and> binary64 (x - rect_left (spec_rect cv))
        \<and> binary64 (canvas_width cv / rect_width (spec_rect cv))
        \<and> binary64 (spec_scale x (rect_left (spec_rect cv)) (canvas_width cv)
                      (rect_width (spec_rect cv))) \<longrightarrow>
      jx (mapPositionToPoint cv x y)
        = Fin (spec_scale x (rect_left (spec_rect cv)) (canvas_width cv)
                 (rect_width (spec_rect cv))))
   \<and> (rect_height (spec_rect cv) \<noteq> 0 \<and> binary64 (y - rect_top (spec_rect cv))
        \<and> binary64 (canvas_height cv / rect_height (spec_rect cv))
        \<and> binary64 (spec_scale y (rect_top (spec_rect cv)) (canvas_height cv)
                      (rect_height (spec_rect cv))) \<longrightarrow>
      jy (mapPositionToPoint cv x y)
        = Fin (spec_scale y (rect_top (spec_rect cv)) (canvas_height cv)
                 (rect_height (spec_rect cv))))
   \<and> mapPositionToPoint demo_canvas 10 10 = JSPoint (Fin 0) (Fin 0)
   \<and> mapPositionToPoint demo_canvas 410 310 = JSPoint (Fin 800) (Fin 600)"
proof -
  note jx = mapPositionToPoint_jx [of cv x y] and jy = mapPositionToPoint_jy [of cv x y]
  show ?thesis
    unfolding jx jy
    using scale_rounded [of "rect_width (spec_rect cv)" x "rect_left (spec_rect cv)" dx
            "canvas_width cv" qx]
          scale_rounded [of "rect_height (spec_rect cv)" y "rect_top (spec_rect cv)" dy
            "canvas_height cv" qy]
          scale_exact [of "rect_width (spec_rect cv)" x "rect_left (spec_rect cv)"
            "canvas_width cv"]
          scale_exact [of "rect_height (spec_rect cv)" y "rect_top (spec_rect cv)"
            "canvas_height cv"]
          demo_mapping(1,2)
    by blast
qed

theorem mapPositionToPoint_rounds_formula_witness:
  "mapPositionToPoint demo_canvas_detached 5 7 = JSPoint (Fin 5) (Fin 7)"
proof -
  let ?r = "spec_rect demo_canvas_detached"
  have r: "rect_left ?r = 0" "rect_top ?r = 0" "rect_width ?r = 800" "rect_height ?r = 600"
    "canvas_width demo_canvas_detached = 800" "canvas_height demo_canvas_detached = 600"
    by (simp_all add: spec_rect_def demo_canvas_detached_def)
  have hx: "rect_width ?r \<noteq> 0 \<and> binary64 (5 - rect_left ?r)
      \<and> binary64 (canvas_width demo_canvas_detached / rect_width ?r)
      \<and> binary64 (spec_scale 5 (rect_left ?r) (canvas_width demo_canvas_detached) (rect_width ?r))"
    by (simp add: r spec_scale_def demo_binary64)
  have hy: "rect_height ?r \<noteq> 0 \<and> binary64 (7 - rect_top ?r)
      \<and> binary64 (canvas_height demo_canvas_detached / rect_height ?r)
      \<and> binary64 (spec_scale 7 (rect_top ?r) (canvas_height demo_canvas_detached)
                    (rect_height ?r))"
    by (simp add: r spec_scale_def demo_binary64)
  from mapPositionToPoint_rounds_formula
         [where cv = demo_canvas_detached and x = 5 and y = 7 and dx = 5 and qx = 1
            and dy = 7 and qy = 1] hx hy
  have "jx (mapPositionToPoint demo_canvas_detached 5 7)
          = Fin (spec_scale 5 (rect_left ?r) (canvas_width demo_canvas_detached) (rect_width ?r))"
    and "jy (mapPositionToPoint demo_canvas_detached 5 7)
          = Fin (spec_scale 7 (rect_top ?r) (canvas_height demo_canvas_detached) (rect_height ?r))"
    by blast+
  then have "jx (mapPositionToPoint demo_canvas_detached 5 7) = Fin 5"
    and "jy (mapPositionToPoint demo_canvas_detached 5 7) = Fin 7"
    by (simp_all add: r spec_scale_def)
  then show ?thesis by (cases "mapPositionToPoint demo_canvas_detached 5 7") simp
qed

text \<open>
  Claim C6 as stated, with the formula taken over the reals, does not hold. For a backing
  width of 800 shown 302 wide at offset 10, the formula gives 800 at the screen point 312,
  but the quotient 800 / 302 is rounded and the mapper returns the next binary64 value
  above 800.
\<close>

theorem mapper_rounds_off_exact_value:
  "jx (mapPositionToPoint demo_canvas_302 312 310) = Fin (800 + 1 / 2 ^ 43)
   \<and> spec_scale 312 (rect_left (spec_rect demo_canvas_302)) (canvas_width demo_canvas_302)
        (rect_width (spec_rect demo_canvas_302)) = 800
   \<and> binary64 312 \<and> binary64 10 \<and> binary64 800 \<and> binary64 302"
proof -
  have "spec_scale 312 (rect_left (spec_rect demo_canvas_302)) (canvas_width demo_canvas_302)
        (rect_width (spec_rect demo_canvas_302)) = 800"
    by (simp add: spec_scale_def spec_rect_def demo_canvas_302_def)
  with demo_mapping_302 demo_binary64 show ?thesis by (simp only: simp_thms)
qed

text \<open>
  Claim C3. For a wheel event that is processed, the plugin chain's wheel handler is called
  (once) if and only if the mapped local point lies in the visible rectangle, borders
  included; outside it the handler does nothing at all; and \<open>preventDefault\<close> is called if
  and only if the chain was called, its verdict is stop and the wheel listener is not passive.
\<close>

theorem wheel_gate:
  assumes "\<not> ignored vp"
  shows "(PluginsWheel e \<in> set (handleWheel vp e))
           = within_visible vp (toLocal vp (getPointerPosition vp e))
    \<and> length (filter (\<lambda>x. x = PluginsWheel e) (handleWheel vp e))
           = (if within_visible vp (toLocal vp (getPointerPosition vp e)) then 1 else 0)
    \<and> (\<not> within_visible vp (toLocal vp (getPointerPosition vp e)) \<longrightarrow> handleWheel vp e = [])
    \<and> (PreventDefault \<in> set (handleWheel vp e))
           = (within_visible vp (toLocal vp (getPointerPosition vp e))
              \<and> plugins_wheel vp e \<and> \<not> opt_passiveWheel vp)"
  using assms by (simp add: handleWheel_def Let_def ignored_iff within_visible_def)

theorem wheel_gate_witness:
  "PluginsWheel \<lparr>wheel_clientX = 410, wheel_clientY = 310\<rparr>
     \<in> set (handleWheel demo_viewport \<lparr>wheel_clientX = 410, wheel_clientY = 310\<rparr>)
   \<and> PreventDefault \<in> set (handleWheel demo_viewport \<lparr>wheel_clientX = 410, wheel_clientY = 310\<rparr>)
   \<and> handleWheel demo_viewport \<lparr>wheel_clientX = 411, wheel_clientY = 310\<rparr> = []"
proof -
  have i: "\<not> ignored demo_viewport" by (simp add: ignored_demo)
  have a: "within_visible demo_viewport
             (toLocal demo_viewport
               (getPointerPosition demo_viewport \<lparr>wheel_clientX = 410, wheel_clientY = 310\<rparr>))"
    by (simp add: within_visible_def getPointerPosition_def demo_fields demo_mapping)
  have b: "\<not> within_visible demo_viewport
             (toLocal demo_viewport
               (getPointerPosition demo_viewport \<lparr>wheel_clientX = 411, wheel_clientY = 310\<rparr>))"
    by (simp add: within_visible_def getPointerPosition_def demo_fields demo_mapping)
  from wheel_gate [OF i, of "\<lparr>wheel_clientX = 410, wheel_clientY = 310\<rparr>"] a
       wheel_gate [OF i, of "\<lparr>wheel_clientX = 411, wheel_clientY = 310\<rparr>"] b
  show ?thesis by (simp add: demo_fields)
qed

section \<open>The clicked signal\<close>

lemma snd_run_Nil: "snd (run s []) = []"
  by simp

lemma snd_run_Cons: "snd (run s (a # as)) = snd (step a s) @ snd (run (fst (step a s)) as)"
  by (simp split: prod.splits)

lemma snd_run_append: "snd (run s (as @ bs)) = snd (run s as) @ snd (run (fst (run s as)) bs)"
proof (induction as arbitrary: s)
  case Nil
  then show ?case by simp
next
  case (Cons a as)
  show ?case using Cons.IH [of "fst (step a s)"]
    by (simp only: append_Cons fst_run_Cons snd_run_Cons append_assoc)
qed

lemma clicked_signals_append: "clicked_signals (xs @ ys) = clicked_signals xs @ clicked_signals ys"
  by (simp add: clicked_signals_def)

lemma clicked_signals_Nil: "clicked_signals [] = []"
  by (simp add: clicked_signals_def)

lemma clicked_signals_Cons:
  "clicked_signals (x # xs) = (if is_clicked x then x # clicked_signals xs else clicked_signals xs)"
  by (simp add: clicked_signals_def)

lemma clicked_signals_stop: "clicked_signals (stop_effects vp b) = []"
  by (simp add: clicked_signals_def stop_effects_def)

lemmas clicked_simps = clicked_signals_Nil clicked_signals_Cons clicked_signals_stop

lemma clicked_signals_down: "clicked_signals (snd (down vp e s)) = []"
  by (simp add: down_def Let_def clicked_simps)

lemma clicked_signals_move: "clicked_signals (snd (move vp e s)) = []"
  by (simp add: move_def Let_def clicked_simps)

lemma clicked_signals_wheel: "clicked_signals (handleWheel vp e) = []"
  by (simp add: handleWheel_def Let_def clicked_simps)

lemma up_ignored: "ignored vp \<Longrightarrow> up vp e s = (s, [])"
  by (simp add: up_def ignored_iff)

lemma down_ignored: "ignored vp \<Longrightarrow> down vp e s = (s, [])"
  by (simp add: down_def ignored_iff)

lemma move_ignored: "ignored vp \<Longrightarrow> move vp e s = (s, [])"
  by (simp add: move_def ignored_iff)

lemma up_processed:
  "\<not> ignored vp \<Longrightarrow>
   up vp e s =
     (if clickedAvailable s = Some True \<and> count (released e s) = 0 \<and> last_point s \<noteq> None
      then ((released e s)\<lparr>clickedAvailable := Some False\<rparr>,
            PluginsUp e # EmitClicked e (the (last_point s)) (toWorld vp (the (last_point s)))
            # stop_effects vp (plugins_up vp e))
      else (released e s, PluginsUp e # stop_effects vp (plugins_up vp e)))"
  by (simp add: up_def Let_def ignored_iff remove_touch_def released_def)

lemma clicked_signals_up:
  "clicked_signals (snd (up vp e s)) =
     (if ignored vp then []
      else if clickedAvailable s = Some True \<and> count (released e s) = 0 \<and> last_point s \<noteq> None
      then [EmitClicked e (the (last_point s)) (toWorld vp (the (last_point s)))] else [])"
  by (auto simp: up_processed up_ignored clicked_simps)

lemma up_fst:
  "fst (up vp e s) =
     (if ignored vp then s
      else if clicked_signals (snd (up vp e s)) = [] then released e s
      else (released e s)\<lparr>clickedAvailable := Some False\<rparr>)"
  by (simp add: up_processed up_ignored clicked_simps)

lemma released_fields:
  "clickedAvailable (released e s) = clickedAvailable s"
  "last_point (released e s) = last_point s"
  by (simp_all add: released_def)

lemma up_clickedAvailable:
  "clickedAvailable (fst (up vp e s)) =
     (if clicked_signals (snd (up vp e s)) = [] then clickedAvailable s else Some False)"
  by (auto simp: up_fst released_fields clicked_signals_up)

lemma up_count:
  "count (fst (up vp e s)) = (if ignored vp then count s else count (released e s))"
  by (simp add: up_fst count_def)

lemma released_count_zero: "count s = 0 \<Longrightarrow> count (released e s) = 0"
  by (simp add: count_def released_def split: if_splits)

lemma up_last_point: "last_point (fst (up vp e s)) = last_point s"
  by (simp add: up_def Let_def remove_touch_def)

lemma move_last_point: "last_point (fst (move vp e s)) = last_point s"
  by (simp add: move_def Let_def)

lemma move_clickedAvailable_mono:
  "clickedAvailable (fst (move vp e s)) = Some True \<Longrightarrow> clickedAvailable s = Some True"
  by (simp add: move_def Let_def split: if_splits)

lemma count_nonneg: "0 \<le> count s"
  by (simp add: count_def)

lemma up_count_zero: "count s = 0 \<Longrightarrow> count (fst (up vp e s)) = 0"
  by (simp add: up_count released_count_zero)

lemma step_budget:
  "length (clicked_signals (snd (step a s))) + click_budget (fst (step a s))
     \<le> click_budget s + (if is_rearming s a then 1 else 0)"
proof (cases a)
  case (Down vp e)
  show ?thesis
  proof (cases "ignored vp")
    case True
    with Down show ?thesis by (simp add: down_ignored clicked_signals_Nil)
  next
    case False
    have "click_budget (fst (down vp e s)) \<le> 1" by (simp add: click_budget_def)
    moreover have "count s \<noteq> 0 \<Longrightarrow> click_budget s = 1" by (simp add: click_budget_def)
    ultimately show ?thesis using Down False by (simp add: clicked_signals_down)
  qed
next
  case (Move vp e)
  have "click_budget (fst (move vp e s)) \<le> click_budget s"
    using move_clickedAvailable_mono [of vp e s]
    by (auto simp: click_budget_def count_def move_registry)
  with Move show ?thesis by (simp add: clicked_signals_move)
next
  case (Up vp e)
  show ?thesis
  proof (cases "clicked_signals (snd (up vp e s)) = []")
    case True
    then have "clickedAvailable (fst (up vp e s)) = clickedAvailable s"
      by (simp add: up_clickedAvailable)
    then have "click_budget (fst (up vp e s)) \<le> click_budget s"
      using up_count_zero [of s vp e] by (simp add: click_budget_def)
    with Up True show ?thesis by simp
  next
    case False
    then have e: "clickedAvailable s = Some True" "count (fst (up vp e s)) = 0"
      and l: "length (clicked_signals (snd (up vp e s))) = 1"
      by (simp_all add: clicked_signals_up up_count split: if_splits)
    from False have "clickedAvailable (fst (up vp e s)) = Some False"
      by (simp add: up_clickedAvailable)
    with e have "click_budget (fst (up vp e s)) = 0" "click_budget s = 1"
      by (simp_all add: click_budget_def)
    with Up l show ?thesis by simp
  qed
next
  case (Wheel vp e)
  then show ?thesis by (simp add: clicked_signals_wheel)
next
  case Pause
  then show ?thesis by (simp add: clicked_signals_Nil click_budget_def pause_def count_def)
next
  case Clear
  then show ?thesis by (simp add: clicked_signals_Nil click_budget_def clear_def count_def)
qed

lemma run_budget:
  "length (clicked_signals (snd (run s as))) + click_budget (fst (run s as))
     \<le> click_budget s + rearming_downs s as"
proof (induction as arbitrary: s)
  case Nil
  then show ?case by (simp add: clicked_signals_Nil)
next
  case (Cons a as)
  from Cons.IH [of "fst (step a s)"] step_budget [of a s]
  show ?case
    unfolding snd_run_Cons fst_run_Cons clicked_signals_append length_append rearming_downs.simps
    by linarith
qed

text \<open>
  Claim C10. From any state, a sequence of calls emits at most one \<open>clicked\<close> signal more
  than it holds down events that bring the count from 0 to 1 (and, on a new manager, at
  most as many as it holds such downs): between two signals there is always such a down.
  An up event that emits the signal leaves \<open>clickedAvailable\<close> false and the count at 0, and
  a processed down at count 0 brings the count to 1.
\<close>

theorem clicks_bounded_by_rearming_downs:
  "length (clicked_signals (snd (run s as))) \<le> 1 + rearming_downs s as
   \<and> length (clicked_signals (snd (run new_manager as))) \<le> rearming_downs new_manager as
   \<and> (clicked_signals (snd (up vp e s)) \<noteq> [] \<longrightarrow>
        clickedAvailable (fst (up vp e s)) = Some False \<and> count (fst (up vp e s)) = 0)
   \<and> (is_rearming s (Down vp e) \<longrightarrow> count (fst (down vp e s)) = 1)"
proof -
  have "click_budget s \<le> 1" by (simp add: click_budget_def)
  with run_budget [of s as]
  have a: "length (clicked_signals (snd (run s as))) \<le> 1 + rearming_downs s as" by linarith
  have "click_budget new_manager = 0" by (simp add: click_budget_def new_manager_def count_def)
  with run_budget [of new_manager as]
  have b: "length (clicked_signals (snd (run new_manager as))) \<le> rearming_downs new_manager as"
    by linarith
  have c: "clicked_signals (snd (up vp e s)) \<noteq> [] \<longrightarrow>
        clickedAvailable (fst (up vp e s)) = Some False \<and> count (fst (up vp e s)) = 0"
    by (simp add: up_clickedAvailable) (simp add: clicked_signals_up up_count split: if_splits)
  have d: "is_rearming s (Down vp e) \<longrightarrow> count (fst (down vp e s)) = 1"
  proof -
    have "count (fst (down vp e s)) = 1" if c: "count s = 0" and i: "\<not> ignored vp"
    proof -
      from c have t: "touches s = []" by (cases "isMouseDown s") (simp_all add: count_def)
      show ?thesis by (simp add: down_count ids_of_def t c i)
    qed
    then show ?thesis by simp
  qed
  from a b c d show ?thesis by blast
qed

theorem clicks_bounded_by_rearming_downs_witness:
  "rearming_downs demo_armed
     [Up demo_viewport (touch_at 1 3 4), Up demo_viewport (touch_at 1 3 4), Pause,
      Up demo_viewport (mouse_at 3 4)] = 0
   \<and> length (clicked_signals (snd (run demo_armed
       [Up demo_viewport (touch_at 1 3 4), Up demo_viewport (touch_at 1 3 4), Pause,
        Up demo_viewport (mouse_at 3 4)]))) \<le> 1
   \<and> clickedAvailable (fst (up demo_viewport (touch_at 1 3 4) demo_armed)) = Some False
   \<and> count (fst (down demo_viewport (touch_at 1 3 4) new_manager)) = 1"
proof -
  let ?as = "[Up demo_viewport (touch_at 1 3 4), Up demo_viewport (touch_at 1 3 4), Pause,
      Up demo_viewport (mouse_at 3 4)]"
  have r: "rearming_downs demo_armed ?as = 0" by simp
  have e: "clicked_signals (snd (up demo_viewport (touch_at 1 3 4) demo_armed)) \<noteq> []"
    by (simp add: clicked_signals_up ignored_demo demo_armed_fields released_def count_def
        touch_at_fields)
  have z: "is_rearming new_manager (Down demo_viewport (touch_at 1 3 4))"
    by (simp add: ignored_demo new_manager_def count_def)
  from clicks_bounded_by_rearming_downs
         [of demo_armed ?as demo_viewport "touch_at 1 3 4"] r e
  have a: "length (clicked_signals (snd (run demo_armed ?as))) \<le> 1"
    and b: "clickedAvailable (fst (up demo_viewport (touch_at 1 3 4) demo_armed)) = Some False"
    by simp_all
  from clicks_bounded_by_rearming_downs
         [of new_manager "[]" demo_viewport "touch_at 1 3 4"] z
  have c: "count (fst (down demo_viewport (touch_at 1 3 4) new_manager)) = 1" by blast
  from r a b c show ?thesis by blast
qed

lemma down_from_idle:
  assumes "count s = 0" and "\<not> ignored vp" and "pointerType e \<noteq> ''mouse''"
    and "\<not> present_and_active (decelerate vp)" and "\<not> present_and_active (bounce vp)"
  shows "fst (down vp e s) =
           s\<lparr>touches := [\<lparr>touch_id = pointerId e, touch_last = None\<rparr>],
             last_point := Some (Point (clientX e) (clientY e)),
             clickedAvailable := Some True\<rparr>"
proof -
  from assms(1) have t: "touches s = []" and m: "\<not> isMouseDown s"
    by (cases "isMouseDown s"; simp add: count_def)+
  show ?thesis using assms(2-5) t m
    by (simp add: down_def Let_def ignored_iff absent_or_inactive_iff count_def get_def)
qed

lemma calm_step:
  assumes "clickedAvailable s = Some True" and "last_point s = Some p" and "calm p a"
  shows "fst (step a s) = s \<and> clicked_signals (snd (step a s)) = []"
proof (cases a)
  case (Move vp e)
  show ?thesis
  proof (cases "ignored vp")
    case True
    with Move show ?thesis by (simp add: move_ignored clicked_signals_Nil)
  next
    case False
    from assms(2) have l: "last_point s = Some (Point (px p) (py p))" by simp
    from assms(3) Move False
    have "\<not> (reaches (threshold vp) (clientX e) (px p)
              \<or> reaches (threshold vp) (clientY e) (py p))"
      by (auto split: if_splits)
    with move_clickedAvailable [OF False assms(1) l, of e] Move
    show ?thesis by (simp add: clicked_signals_move)
  qed
next
  case (Wheel vp e)
  then show ?thesis by (simp add: clicked_signals_wheel)
qed (use assms(3) in simp_all)

lemma calm_run:
  assumes "clickedAvailable s = Some True" and "last_point s = Some p" and "list_all (calm p) as"
  shows "fst (run s as) = s \<and> clicked_signals (snd (run s as)) = []"
  using assms(3)
proof (induction as)
  case Nil
  then show ?case by (simp add: clicked_signals_Nil)
next
  case (Cons a as)
  from Cons.prems have "calm p a" and "list_all (calm p) as" by simp_all
  with calm_step [OF assms(1,2), of a] Cons.IH show ?case
    by (simp only: fst_run_Cons snd_run_Cons clicked_signals_append) simp
qed

text \<open>
  Claim C1, as amended. With nothing pressed, a processed touch down while neither
  \<open>decelerate\<close> nor \<open>bounce\<close> is present and active, then moves that are dropped or whose
  displacement from the down position, as the binary64 subtraction leaves it (the
  difference rounded to the nearest binary64 value), reaches the threshold on neither axis
  (and wheel events), then the processed up of the same touch id: no \<open>clicked\<close> signal is
  emitted before the up, and exactly one at the up, whose screen point is the client
  position of the down event.
\<close>

theorem single_tap_emits_one_click_rounded:
  assumes "count s = 0"
    and "\<not> ignored vd" and "pointerType d \<noteq> ''mouse''"
    and "\<not> present_and_active (decelerate vd)" and "\<not> present_and_active (bounce vd)"
    and "list_all (calm (Point (clientX d) (clientY d))) mid"
    and "\<not> ignored vu" and "pointerType u \<noteq> ''mouse''" and "pointerId u = pointerId d"
  shows "clicked_signals (snd (run s (Down vd d # mid))) = []
    \<and> clicked_signals (snd (run s (Down vd d # mid @ [Up vu u])))
        = [EmitClicked u (Point (clientX d) (clientY d))
             (toWorld vu (Point (clientX d) (clientY d)))]"
proof -
  let ?p = "Point (clientX d) (clientY d)"
  let ?s1 = "s\<lparr>touches := [\<lparr>touch_id = pointerId d, touch_last = None\<rparr>],
               last_point := Some ?p, clickedAvailable := Some True\<rparr>"
  have s1: "fst (step (Down vd d) s) = ?s1"
    using down_from_idle [OF assms(1-5)] by simp
  have o1: "clicked_signals (snd (step (Down vd d) s)) = []"
    by (simp add: clicked_signals_down)
  have "clickedAvailable ?s1 = Some True" and "last_point ?s1 = Some ?p" by simp_all
  from calm_run [OF this assms(6)]
  have s2: "fst (run ?s1 mid) = ?s1" and o2: "clicked_signals (snd (run ?s1 mid)) = []"
    by simp_all
  from assms(1) have m: "\<not> isMouseDown s" by (cases "isMouseDown s") (simp_all add: count_def)
  have "count (released u ?s1) = 0"
    using assms(8,9) m by (simp add: released_def count_def)
  then have o3: "clicked_signals (snd (step (Up vu u) ?s1)) = [EmitClicked u ?p (toWorld vu ?p)]"
    using assms(7) by (simp add: clicked_signals_up)
  have a: "clicked_signals (snd (run s (Down vd d # mid))) = []"
    by (simp only: snd_run_Cons clicked_signals_append s1 o1 o2 append_Nil)
  have "clicked_signals (snd (run s (Down vd d # mid @ [Up vu u])))
          = [EmitClicked u ?p (toWorld vu ?p)]"
    by (simp only: snd_run_Cons snd_run_append snd_run_Nil fst_run_Cons clicked_signals_append
        s1 o1 s2 o2 o3 append_Nil append_Nil2 clicked_signals_Nil)
  with a show ?thesis by blast
qed

theorem single_tap_emits_one_click_rounded_witness:
  "count new_manager = 0
   \<and> list_all (calm (Point 3 4))
        [Move demo_viewport (touch_at 1 7 8),
         Wheel demo_viewport \<lparr>wheel_clientX = 0, wheel_clientY = 0\<rparr>]
   \<and> clicked_signals (snd (run new_manager
        [Down demo_viewport (touch_at 1 3 4), Move demo_viewport (touch_at 1 7 8),
         Wheel demo_viewport \<lparr>wheel_clientX = 0, wheel_clientY = 0\<rparr>,
         Up demo_viewport (touch_at 1 7 8)]))
      = [EmitClicked (touch_at 1 7 8) (Point 3 4) (JSPoint (Fin 3) (Fin 4))]"
proof -
  have a: "count new_manager = 0" by (simp add: new_manager_def count_def)
  have b: "\<not> ignored demo_viewport" by (simp add: ignored_demo)
  have c: "pointerType (touch_at 1 3 4) \<noteq> ''mouse''" by (simp add: touch_at_fields)
  have d: "\<not> present_and_active (decelerate demo_viewport)"
    and e: "\<not> present_and_active (bounce demo_viewport)"
    by (simp_all add: demo_fields present_and_active_def)
  have f': "list_all (calm (Point 3 4))
        [Move demo_viewport (touch_at 1 7 8),
         Wheel demo_viewport \<lparr>wheel_clientX = 0, wheel_clientY = 0\<rparr>]"
    by (simp add: ignored_demo demo_fields touch_at_fields demo_reaches)
  then have f: "list_all (calm (Point (clientX (touch_at 1 3 4)) (clientY (touch_at 1 3 4))))
        [Move demo_viewport (touch_at 1 7 8),
         Wheel demo_viewport \<lparr>wheel_clientX = 0, wheel_clientY = 0\<rparr>]"
    by (simp only: touch_at_fields)
  have g: "pointerType (touch_at 1 7 8) \<noteq> ''mouse''" by (simp add: touch_at_fields)
  have h: "pointerId (touch_at 1 7 8) = pointerId (touch_at 1 3 4)" by (simp add: touch_at_fields)
  from single_tap_emits_one_click_rounded [OF a b c d e f b g h]
  have "clicked_signals (snd (run new_manager
        [Down demo_viewport (touch_at 1 3 4), Move demo_viewport (touch_at 1 7 8),
         Wheel demo_viewport \<lparr>wheel_clientX = 0, wheel_clientY = 0\<rparr>,
         Up demo_viewport (touch_at 1 7 8)]))
      = [EmitClicked (touch_at 1 7 8) (Point 3 4) (JSPoint (Fin 3) (Fin 4))]"
    by (simp only: append_Cons append_Nil touch_at_fields demo_fields point.sel)
  with a f' show ?thesis by blast
qed

text \<open>
  Claim C1 as stated, with the displacement taken as the real difference, does not hold.
  A touch goes down at the binary64 value nearest to 0.1, moves to the one nearest to 5.1
  and goes up: the real displacement stays below the threshold 5 on both axes, yet the
  subtraction rounds to 5, the move disarms the click and no \<open>clicked\<close> signal is emitted.
\<close>

theorem tap_with_rounded_move_emits_no_click:
  "clicked_signals (snd (run new_manager
      [Down demo_viewport (touch_at 1 near_0_1 4), Move demo_viewport (touch_at 1 near_5_1 4),
       Up demo_viewport (touch_at 1 near_5_1 4)])) = []
   \<and> \<bar>near_5_1 - near_0_1\<bar> < threshold demo_viewport
   \<and> \<bar>4 - (4 :: real)\<bar> < threshold demo_viewport
   \<and> count new_manager = 0 \<and> \<not> ignored demo_viewport
   \<and> binary64 near_0_1 \<and> binary64 near_5_1 \<and> binary64 4"
proof -
  let ?d = "Down demo_viewport (touch_at 1 near_0_1 4)"
  let ?m = "Move demo_viewport (touch_at 1 near_5_1 4)"
  let ?u = "Up demo_viewport (touch_at 1 near_5_1 4)"
  have c: "count new_manager = 0" by (simp add: new_manager_def count_def)
  have s1: "fst (step ?d new_manager) = demo_armed_fraction"
    using down_from_idle [of new_manager demo_viewport "touch_at 1 near_0_1 4"]
    by (simp add: ignored_demo demo_fields touch_at_fields present_and_active_def
        new_manager_def count_def demo_armed_fraction_def)
  have s2: "fst (step ?m demo_armed_fraction)
              = demo_armed_fraction\<lparr>clickedAvailable := Some False\<rparr>"
    using move_clickedAvailable
            [of demo_viewport demo_armed_fraction near_0_1 4 "touch_at 1 near_5_1 4"]
    by (simp add: ignored_demo demo_fields touch_at_fields demo_reaches demo_armed_fraction_def)
  have o1: "clicked_signals (snd (step ?d new_manager)) = []"
    by (simp add: clicked_signals_down)
  have o2: "clicked_signals (snd (step ?m demo_armed_fraction)) = []"
    by (simp add: clicked_signals_move)
  have o3: "clicked_signals
              (snd (step ?u (demo_armed_fraction\<lparr>clickedAvailable := Some False\<rparr>))) = []"
    by (simp add: clicked_signals_up)
  have "clicked_signals (snd (run new_manager [?d, ?m, ?u])) = []"
    by (simp only: snd_run_Cons snd_run_Nil fst_run_Cons clicked_signals_append
        s1 s2 o1 o2 o3 append_Nil clicked_signals_Nil)
  moreover have "\<bar>near_5_1 - near_0_1\<bar> < 5" by (simp add: near_5_1_def near_0_1_def)
  ultimately show ?thesis by (simp add: c ignored_demo demo_fields demo_binary64)
qed

section \<open>Pause and clear\<close>

lemma quiet_step:
  assumes "last_point s = None" and "\<not> processed_down a"
  shows "last_point (fst (step a s)) = None \<and> clicked_signals (snd (step a s)) = []"
proof (cases a)
  case (Down vp e)
  with assms show ?thesis by (simp add: down_ignored clicked_signals_Nil split: if_splits)
next
  case (Move vp e)
  with assms show ?thesis by (simp add: move_last_point clicked_signals_move)
next
  case (Up vp e)
  with assms show ?thesis by (simp add: up_last_point clicked_signals_up)
next
  case (Wheel vp e)
  with assms show ?thesis by (simp add: clicked_signals_wheel)
next
  case Pause
  with assms show ?thesis by (simp add: pause_def clicked_signals_Nil)
next
  case Clear
  with assms show ?thesis by (simp add: clear_def clicked_signals_Nil)
qed

lemma quiet_run:
  "last_point s = None \<Longrightarrow> \<not> list_ex processed_down as \<Longrightarrow> clicked_signals (snd (run s as)) = []"
proof (induction as arbitrary: s)
  case Nil
  then show ?case by (simp add: clicked_signals_Nil)
next
  case (Cons a as)
  from Cons.prems have "\<not> processed_down a" and r: "\<not> list_ex processed_down as" by simp_all
  from quiet_step [OF Cons.prems(1) this(1)]
  have "last_point (fst (step a s)) = None" and o: "clicked_signals (snd (step a s)) = []"
    by simp_all
  from Cons.IH [OF this(1) r] o show ?case
    by (simp only: snd_run_Cons clicked_signals_append append_Nil)
qed

text \<open>
  Claim C2, as amended. After \<open>pause()\<close> and after \<open>clear()\<close> the registry is empty, the mouse
  flag is cleared and \<open>count()\<close> is 0; the call emits nothing; \<open>clickedAvailable\<close> is left as
  it was. \<open>clear()\<close> also makes the reference point absent, and after \<open>clear()\<close> no \<open>clicked\<close>
  signal is emitted as long as no down event is processed.
\<close>

theorem pause_and_clear_reset_registry:
  "touches (pause s) = [] \<and> isMouseDown (pause s) = False \<and> count (pause s) = 0
   \<and> clickedAvailable (pause s) = clickedAvailable s \<and> snd (step Pause s) = []
   \<and> touches (clear s) = [] \<and> isMouseDown (clear s) = False \<and> count (clear s) = 0
   \<and> clickedAvailable (clear s) = clickedAvailable s \<and> last_point (clear s) = None
   \<and> snd (step Clear s) = []
   \<and> (\<not> list_ex processed_down as \<longrightarrow> clicked_signals (snd (run (clear s) as)) = [])"
proof -
  have "last_point (clear s) = None" by (simp add: clear_def)
  then have "\<not> list_ex processed_down as \<longrightarrow> clicked_signals (snd (run (clear s) as)) = []"
    using quiet_run [of "clear s" as] by blast
  then show ?thesis by (simp add: pause_def clear_def count_def)
qed

theorem pause_and_clear_reset_registry_witness:
  "count (pause demo_armed) = 0 \<and> count (clear demo_armed) = 0
   \<and> last_point (clear demo_armed) = None
   \<and> clicked_signals (snd (run (clear demo_armed)
        [Move demo_viewport (touch_at 1 3 4), Up demo_viewport (touch_at 1 3 4)])) = []"
  using pause_and_clear_reset_registry
    [of demo_armed "[Move demo_viewport (touch_at 1 3 4), Up demo_viewport (touch_at 1 3 4)]"]
  by simp

text \<open>
  Claim C2 as stated does not hold. In the state a single touch down leaves, \<open>pause()\<close>
  and \<open>clear()\<close> leave \<open>clickedAvailable\<close> true, \<open>pause()\<close> keeps the reference point, and the
  up event of the interrupted press, processed after \<open>pause()\<close>, emits \<open>clicked\<close>.
\<close>

theorem pause_keeps_click_pending:
  "fst (down demo_viewport (touch_at 1 3 4) new_manager) = demo_armed
   \<and> clickedAvailable (pause demo_armed) = Some True
   \<and> last_point (pause demo_armed) = Some (Point 3 4)
   \<and> clickedAvailable (clear demo_armed) = Some True
   \<and> clicked_signals (snd (up demo_viewport (touch_at 1 3 4) (pause demo_armed)))
       = [EmitClicked (touch_at 1 3 4) (Point 3 4) (JSPoint (Fin 3) (Fin 4))]"
proof -
  have "fst (down demo_viewport (touch_at 1 3 4) new_manager) = demo_armed"
    using down_from_idle [of new_manager demo_viewport "touch_at 1 3 4"]
    by (simp add: ignored_demo demo_fields touch_at_fields present_and_active_def
        new_manager_def count_def demo_armed_def)
  moreover have "clicked_signals (snd (up demo_viewport (touch_at 1 3 4) (pause demo_armed)))
       = [EmitClicked (touch_at 1 3 4) (Point 3 4) (JSPoint (Fin 3) (Fin 4))]"
    by (simp add: clicked_signals_up ignored_demo demo_fields touch_at_fields pause_def
        demo_armed_def released_def count_def)
  ultimately show ?thesis by (simp add: pause_def clear_def demo_armed_def)
qed

end
